theory Spec2Isabelle
  imports Complex_Main "HOL-Library.Log_Nat"
begin

section \<open>Python strings\<close>

text \<open>
  A Python \<open>str\<close> is a sequence of Unicode code points. It is modelled as a list of
  natural numbers, one per code point, so that \<open>length\<close> counts what \<open>len\<close> counts and the
  Arabic-Indic digits (U+0660 .. U+0669) are single characters. \<open>ustr\<close> embeds an ASCII
  literal.
\<close>

type_synonym ustring = "nat list"

definition ustr :: "string \<Rightarrow> ustring" where
  "ustr s = map of_char s"

abbreviation (input) LF :: nat where "LF \<equiv> 10"
abbreviation (input) SP :: nat where "SP \<equiv> 32"
abbreviation (input) LPAR :: nat where "LPAR \<equiv> 40"
abbreviation (input) RPAR :: nat where "RPAR \<equiv> 41"
abbreviation (input) HYPHEN :: nat where "HYPHEN \<equiv> 45"

text \<open>
  The class \<open>\s\<close> of a \<open>str\<close> pattern, which is also what \<open>str.strip()\<close> removes
  and what \<open>str.isspace()\<close> accepts: the 29 code points below.
\<close>

definition is_space :: "nat \<Rightarrow> bool" where
  "is_space c \<longleftrightarrow>
     (0x09 \<le> c \<and> c \<le> 0x0D) \<or> (0x1C \<le> c \<and> c \<le> 0x20) \<or> c = 0x85 \<or> c = 0xA0 \<or>
     c = 0x1680 \<or> (0x2000 \<le> c \<and> c \<le> 0x200A) \<or> c = 0x2028 \<or> c = 0x2029 \<or>
     c = 0x202F \<or> c = 0x205F \<or> c = 0x3000"

text \<open>
  The class \<open>\d\<close> of a \<open>str\<close> pattern: the decimal digits of every script (general
  category Nd). Each script has ten consecutive digits starting at its zero; the
  mathematical digits U+1D7CE .. U+1D7FF are five such blocks in a row. The table is that
  of Unicode 14 (CPython 3.11).
\<close>

definition decimal_zeros :: "nat list" where
  "decimal_zeros =
     [0x30, 0x660, 0x6F0, 0x7C0, 0x966, 0x9E6, 0xA66, 0xAE6, 0xB66, 0xBE6, 0xC66, 0xCE6,
      0xD66, 0xDE6, 0xE50, 0xED0, 0xF20, 0x1040, 0x1090, 0x17E0, 0x1810, 0x1946, 0x19D0,
      0x1A80, 0x1A90, 0x1B50, 0x1BB0, 0x1C40, 0x1C50, 0xA620, 0xA8D0, 0xA900, 0xA9D0,
      0xA9F0, 0xAA50, 0xABF0, 0xFF10, 0x104A0, 0x10D30, 0x11066, 0x110F0, 0x11136,
      0x111D0, 0x112F0, 0x11450, 0x114D0, 0x11650, 0x116C0, 0x11730, 0x118E0, 0x11950,
      0x11C50, 0x11D50, 0x11DA0, 0x16A60, 0x16AC0, 0x16B50, 0x1D7CE, 0x1D7D8, 0x1D7E2,
      0x1D7EC, 0x1D7F6, 0x1E140, 0x1E2F0, 0x1E950, 0x1FBF0]"

definition is_digit :: "nat \<Rightarrow> bool" where
  "is_digit c \<longleftrightarrow> list_ex (\<lambda>z. z \<le> c \<and> c < z + 10) decimal_zeros"

text \<open>\<open>s.strip()\<close>: leading and trailing whitespace removed.\<close>

definition strip :: "ustring \<Rightarrow> ustring" where
  "strip s = rev (dropWhile is_space (rev (dropWhile is_space s)))"

text \<open>\<open>str(n)\<close> for a non-negative integer.\<close>

function str_nat :: "nat \<Rightarrow> ustring" where
  "str_nat n = (if n < 10 then [48 + n] else str_nat (n div 10) @ [48 + n mod 10])"
  by pat_completeness auto
termination
  by (relation "measure id") auto

declare str_nat.simps [simp del]

section \<open>The substitutions of the \<open>re\<close> module\<close>

text \<open>
  \<open>re.sub(r'X{k,}', r, s)\<close> for a one-character class \<open>X\<close>: the scan goes from left to
  right; at a position where a run of at least \<open>k\<close> characters of the class starts, the
  greedy quantifier takes the whole run, the replacement is emitted and the scan resumes
  after the run; elsewhere the character is copied. The four substitutions of this kind in
  the source are \<open>\n{3,}\<close>, \<open>\n{2,}\<close>, \<open>-{3,}\<close> and \<open> +\<close>.
\<close>

function sub_run :: "(nat \<Rightarrow> bool) \<Rightarrow> nat \<Rightarrow> ustring \<Rightarrow> ustring \<Rightarrow> ustring" where
  "sub_run p k r [] = []"
| "sub_run p k r (c # cs) =
     (if p c \<and> k \<le> Suc (length (takeWhile p cs))
      then r @ sub_run p k r (dropWhile p cs)
      else c # sub_run p k r cs)"
  by pat_completeness auto
termination
  by (relation "measure (\<lambda>(p, k, r, s). length s)")
     (auto simp: length_dropWhile_le less_Suc_eq_le)

text \<open>
  \<open>re.sub(re.escape(content), '', s)\<close>: the escaped pattern matches the literal
  \<open>content\<close> and nothing else, so every occurrence found from left to right (without
  overlap) is deleted. The empty pattern matches the empty string at every position and
  replaces it by the empty string: the text is unchanged.
\<close>

function remove_all :: "ustring \<Rightarrow> ustring \<Rightarrow> ustring" where
  "remove_all pat [] = []"
| "remove_all pat (c # cs) =
     (if pat = [] then c # cs
      else if take (length pat) (c # cs) = pat
      then remove_all pat (drop (length pat) (c # cs))
      else c # remove_all pat cs)"
  by pat_completeness auto
termination
  by (relation "measure (\<lambda>(pat, s). length s)") auto

text \<open>
  \<open>re.sub(r'<!--.*?-->', '', s, flags=re.DOTALL)\<close>: at a position where \<open><!--\<close>
  starts, the lazy \<open>.*?\<close> (which crosses newlines) stops at the first \<open>-->\<close> that
  follows the opening; without one there is no match at that position.
\<close>

fun after_close :: "ustring \<Rightarrow> ustring option" where
  "after_close [] = None"
| "after_close (c # cs) =
     (if take 3 (c # cs) = ustr ''-->'' then Some (drop 3 (c # cs)) else after_close cs)"

lemma after_close_length: "after_close s = Some r \<Longrightarrow> length r < length s"
  by (induction s) (auto split: if_splits)

function sub_comments :: "ustring \<Rightarrow> ustring" where
  "sub_comments [] = []"
| "sub_comments (c # cs) =
     (if take 4 (c # cs) = ustr ''<!--''
      then (case after_close (drop 4 (c # cs)) of
              Some rest \<Rightarrow> sub_comments rest
            | None \<Rightarrow> c # sub_comments cs)
      else c # sub_comments cs)"
  by pat_completeness auto
termination
proof (relation "measure length")
  fix c cs rest
  assume "after_close (drop 4 (c # cs)) = Some rest"
  then have "length rest < length (drop 4 (c # cs))"
    by (rule after_close_length)
  then show "(rest, c # cs) \<in> measure length"
    by simp
qed auto

section \<open>The two patterns of the footnote pipeline\<close>

text \<open>
  The footnote pattern \<open>^\s*\((\d+)\)\s*(.+)$\<close> with \<open>re.MULTILINE\<close>, matched at a
  line start. The leading \<open>\s*\<close> (which crosses newlines) and \<open>\d+\<close> are greedy and
  what follows each cannot match a character of the run, so they take the whole run. The
  second \<open>\s*\<close> is greedy with backtracking: it gives whitespace back until \<open>.+\<close>
  finds a character other than a newline; \<open>.+\<close> then runs to the end of the line, where
  \<open>$\<close> holds. The result is group 1, group 2 and the text after the match.
\<close>

definition dot_plus_eol :: "ustring \<Rightarrow> (ustring \<times> ustring) option" where
  "dot_plus_eol s =
     (let b = takeWhile (\<lambda>c. c \<noteq> LF) s
      in if b = [] then None else Some (b, dropWhile (\<lambda>c. c \<noteq> LF) s))"

fun body_match :: "ustring \<Rightarrow> (ustring \<times> ustring) option" where
  "body_match [] = None"
| "body_match (c # cs) =
     (if is_space c
      then (case body_match cs of Some r \<Rightarrow> Some r | None \<Rightarrow> dot_plus_eol (c # cs))
      else dot_plus_eol (c # cs))"

definition match_footnote :: "ustring \<Rightarrow> (ustring \<times> ustring \<times> ustring) option" where
  "match_footnote s =
     (case dropWhile is_space s of
        [] \<Rightarrow> None
      | c # s2 \<Rightarrow>
          if c \<noteq> LPAR then None
          else let ds = takeWhile is_digit s2 in
            if ds = [] then None
            else (case dropWhile is_digit s2 of
                    [] \<Rightarrow> None
                  | d # s4 \<Rightarrow>
                      if d \<noteq> RPAR then None
                      else (case body_match s4 of
                              None \<Rightarrow> None
                            | Some (body, rest) \<Rightarrow> Some (ds, body, rest))))"

lemma dot_plus_eol_length: "dot_plus_eol s = Some (b, r) \<Longrightarrow> length r < length s"
proof -
  assume a: "dot_plus_eol s = Some (b, r)"
  then have ne: "takeWhile (\<lambda>c. c \<noteq> LF) s \<noteq> []" and r: "r = dropWhile (\<lambda>c. c \<noteq> LF) s"
    by (auto simp: dot_plus_eol_def Let_def split: if_splits)
  have "length (takeWhile (\<lambda>c. c \<noteq> LF) s) + length r = length s"
    unfolding r by (metis length_append takeWhile_dropWhile_id)
  moreover have "0 < length (takeWhile (\<lambda>c. c \<noteq> LF) s)"
    using ne by simp
  ultimately show ?thesis by linarith
qed

lemma body_match_length: "body_match s = Some (b, r) \<Longrightarrow> length r < length s"
proof (induction s)
  case Nil
  then show ?case by simp
next
  case (Cons c cs)
  then show ?case
    by (auto split: if_splits option.splits dest: dot_plus_eol_length)
qed

lemma match_footnote_length:
  assumes "match_footnote s = Some (n, b, r)"
  shows "length r < length s"
proof -
  from assms obtain s2 s4 where s2: "dropWhile is_space s = LPAR # s2"
    and s4: "dropWhile is_digit s2 = RPAR # s4" and bm: "body_match s4 = Some (b, r)"
    by (auto simp: match_footnote_def Let_def split: list.splits if_splits option.splits)
  have "length r < length s4"
    using bm by (rule body_match_length)
  moreover have "length s4 < length s2"
    using length_dropWhile_le [of is_digit s2] s4 by simp
  moreover have "length s2 < length s"
    using length_dropWhile_le [of is_space s] s2 by simp
  ultimately show ?thesis by simp
qed

text \<open>
  \<open>finditer\<close> of the footnote pattern: \<open>bol\<close> says whether the current position is the
  start of the text or follows a newline (where \<open>^\<close> holds). After a match the scan
  resumes at its end, which follows a character of the body and is no line start.
\<close>

function footnote_matches :: "bool \<Rightarrow> ustring \<Rightarrow> (ustring \<times> ustring) list" where
  "footnote_matches bol [] = []"
| "footnote_matches bol (c # cs) =
     (if bol
      then (case match_footnote (c # cs) of
              Some (num, body, rest) \<Rightarrow> (num, body) # footnote_matches False rest
            | None \<Rightarrow> footnote_matches (c = LF) cs)
      else footnote_matches (c = LF) cs)"
  by pat_completeness auto
termination
proof (relation "measure (\<lambda>(bol, s). length s)")
  fix bol :: bool and c cs x2 num y body rest
  assume "match_footnote (c # cs) = Some x2" "(num, y) = x2" "(body, rest) = y"
  then have "match_footnote (c # cs) = Some (num, body, rest)"
    by simp
  then have "length rest < length (c # cs)"
    by (rule match_footnote_length)
  then show "((False, rest), (bol, c # cs)) \<in> measure (\<lambda>(bol, s). length s)"
    by simp
qed auto

text \<open>
  The inline marker pattern \<open>\(\s*(\d+)\s*\)\<close>, matched at the start of \<open>s\<close>: the
  result is group 1 and the text after the match. Whitespace, digits and the closing
  parenthesis are pairwise disjoint, so each greedy run is taken whole.
\<close>

definition match_inline :: "ustring \<Rightarrow> (ustring \<times> ustring) option" where
  "match_inline s =
     (case s of
        [] \<Rightarrow> None
      | c # s1 \<Rightarrow>
          if c \<noteq> LPAR then None
          else let s2 = dropWhile is_space s1; ds = takeWhile is_digit s2 in
            if ds = [] then None
            else (case dropWhile is_space (dropWhile is_digit s2) of
                    [] \<Rightarrow> None
                  | d # rest \<Rightarrow> if d \<noteq> RPAR then None else Some (ds, rest)))"

lemma match_inline_length:
  assumes "match_inline s = Some (n, r)"
  shows "length r < length s"
proof -
  from assms obtain s1 where s: "s = LPAR # s1"
    and r: "dropWhile is_space (dropWhile is_digit (dropWhile is_space s1)) = RPAR # r"
    by (auto simp: match_inline_def Let_def split: list.splits if_splits)
  have "length (dropWhile is_space (dropWhile is_digit (dropWhile is_space s1))) \<le> length s1"
    by (meson length_dropWhile_le order_trans)
  with s r show ?thesis by simp
qed

text \<open>
  \<open>finditer\<close> of the inline pattern: each item is \<open>match.group()\<close> (the matched text)
  and \<open>match.group(1)\<close> (the digits).
\<close>

function inline_matches :: "ustring \<Rightarrow> (ustring \<times> ustring) list" where
  "inline_matches [] = []"
| "inline_matches (c # cs) =
     (case match_inline (c # cs) of
        Some (num, rest) \<Rightarrow>
          (take (length (c # cs) - length rest) (c # cs), num) # inline_matches rest
      | None \<Rightarrow> inline_matches cs)"
  by pat_completeness auto
termination
proof (relation "measure length")
  fix c cs x2 num rest
  assume "match_inline (c # cs) = Some x2" "(num, rest) = x2"
  then have "match_inline (c # cs) = Some (num, rest)"
    by simp
  then have "length rest < length (c # cs)"
    by (rule match_inline_length)
  then show "(rest, c # cs) \<in> measure length"
    by simp
qed auto

section \<open>The footnote pipeline of \<open>word_processor.py\<close>\<close>

text \<open>
  A Python \<open>dict\<close> keeps its keys in insertion order, and assigning to a key that is
  present replaces the value in place. The order matters below, because the bodies are
  removed from the text in the order of \<open>footnotes.items()\<close>. A dict is therefore an
  association list with distinct keys.
\<close>

type_synonym footnote_map = "(ustring \<times> ustring) list"

fun dict_set :: "'k \<Rightarrow> 'v \<Rightarrow> ('k \<times> 'v) list \<Rightarrow> ('k \<times> 'v) list" where
  "dict_set k v [] = [(k, v)]"
| "dict_set k v ((k', v') # d) = (if k = k' then (k, v) # d else (k', v') # dict_set k v d)"

text \<open>\<open>WordProcessor.normalize_arabic_text\<close>\<close>

definition translate_digit :: "nat \<Rightarrow> nat" where
  "translate_digit c = (if 0x660 \<le> c \<and> c \<le> 0x669 then c - 0x660 + 0x30 else c)"

definition invisible_mark :: "nat \<Rightarrow> bool" where
  "invisible_mark c \<longleftrightarrow> c = 0x200E \<or> c = 0x200F \<or> (0x202A \<le> c \<and> c \<le> 0x202E)"

definition normalize_arabic_text :: "ustring \<Rightarrow> ustring" where
  "normalize_arabic_text text = filter (\<lambda>c. \<not> invisible_mark c) (map translate_digit text)"

text \<open>\<open>WordProcessor.extract_footnotes\<close>\<close>

definition extract_footnotes :: "ustring \<Rightarrow> footnote_map" where
  "extract_footnotes text =
     foldl (\<lambda>footnotes (num, body). dict_set num (strip body) footnotes) []
       (footnote_matches True text)"

text \<open>\<open>WordProcessor.remove_footnote_content_from_main\<close>\<close>

definition remove_footnote_content_from_main :: "ustring \<Rightarrow> footnote_map \<Rightarrow> ustring" where
  "remove_footnote_content_from_main text footnotes =
     (let cleaned_text = foldl (\<lambda>cleaned (num, content). remove_all content cleaned) text footnotes;
          cleaned_text = sub_run (\<lambda>c. c = LF) 3 [LF, LF] cleaned_text;
          cleaned_text = sub_run (\<lambda>c. c = SP) 1 [SP] cleaned_text
      in strip cleaned_text)"

text \<open>\<open>WordProcessor.clean_markdown_text\<close>\<close>

definition clean_markdown_text :: "ustring \<Rightarrow> ustring" where
  "clean_markdown_text text =
     (let cleaned = sub_comments text;
          cleaned = sub_run (\<lambda>c. c = HYPHEN) 3 [] cleaned;
          cleaned = sub_run (\<lambda>c. c = LF) 2 [LF, LF] cleaned
      in strip cleaned)"

text \<open>\<open>WordProcessor.detect_arabic_text\<close>\<close>

definition detect_arabic_text :: "ustring \<Rightarrow> bool" where
  "detect_arabic_text text = list_ex (\<lambda>c. 0x600 \<le> c \<and> c \<le> 0x6FF) text"

text \<open>
  The target document. It belongs to the Spire.Doc library, which is no part of the
  repository: the model keeps the text of the one paragraph, its direction, and the
  footnotes appended so far, each with the position after which it was inserted and its
  body. The field \<open>reference\<close> is bookkeeping of the model: the number whose marker the
  footnote was attached to.
\<close>

record footnote =
  reference :: ustring
  anchor :: nat
  footnote_text :: ustring

record document =
  paragraph_text :: ustring
  right_to_left :: bool
  word_footnotes :: "footnote list"

text \<open>
  What the library and the file system decide: whether creating the output directory or
  saving the file raises (with the text of the exception), and what \<open>Document.FindString\<close>
  returns for a marker (\<open>None\<close> for Python's \<open>None\<close>, otherwise the index of the text
  range found in its paragraph), and how \<open>pathlib\<close> renders \<open>str(Path(output_dir) / name)\<close>.
  The other calls of the library do not raise in the model.
\<close>

record spire =
  mkdir_raises :: "ustring option"
  FindString :: "document \<Rightarrow> ustring \<Rightarrow> nat option"
  save_raises :: "ustring option"
  joined_path :: "ustring \<Rightarrow> ustring \<Rightarrow> ustring"

text \<open>Values of the result dictionaries.\<close>

datatype pyval = PBool bool | PInt int | PStr ustring

type_synonym pydict = "(string \<times> pyval) list"

text \<open>
  Step 5 of \<open>process_to_word\<close>, the loop over the inline markers of the main text. The
  state is the set \<open>inserted_refs\<close> and the document.
\<close>

fun insert_footnotes ::
  "(document \<Rightarrow> ustring \<Rightarrow> nat option) \<Rightarrow> footnote_map \<Rightarrow> (ustring \<times> ustring) list \<Rightarrow>
   ustring set \<times> document \<Rightarrow> ustring set \<times> document" where
  "insert_footnotes fs footnotes [] st = st"
| "insert_footnotes fs footnotes ((grp, num) # ms) (inserted_refs, doc) =
     (case map_of footnotes num of
        None \<Rightarrow> insert_footnotes fs footnotes ms (inserted_refs, doc)
      | Some note_text \<Rightarrow>
          if num \<in> inserted_refs then insert_footnotes fs footnotes ms (inserted_refs, doc)
          else insert_footnotes fs footnotes ms
                 (insert num inserted_refs,
                  (case fs doc grp of
                     None \<Rightarrow> doc
                   | Some index \<Rightarrow>
                       doc\<lparr>word_footnotes := word_footnotes doc @
                         [\<lparr>reference = num, anchor = index + 1, footnote_text = note_text\<rparr>]\<rparr>)))"

text \<open>
  Reinjection: the loop runs over the matches of the inline pattern in the main text,
  from the empty set and the document that holds the main text.
\<close>

definition reinject ::
  "(document \<Rightarrow> ustring \<Rightarrow> nat option) \<Rightarrow> footnote_map \<Rightarrow> ustring \<Rightarrow> document \<Rightarrow>
   ustring set \<times> document" where
  "reinject fs footnotes main_text paragraph =
     insert_footnotes fs footnotes (inline_matches main_text) ({}, paragraph)"

text \<open>
  \<open>WordProcessor.process_to_word\<close>. The result is the dictionary returned and the
  document saved (if any). An exception anywhere in the body is caught and reported in
  the dictionary.
\<close>

definition word_failed :: "ustring \<Rightarrow> pydict" where
  "word_failed e =
     [(''success'', PBool False), (''error'', PStr (ustr ''Word processing failed: '' @ e))]"

definition process_to_word ::
  "spire \<Rightarrow> ustring \<Rightarrow> ustring \<Rightarrow> ustring \<Rightarrow> pydict \<times> document option" where
  "process_to_word env markdown_content output_dir language =
     (case mkdir_raises env of
        Some e \<Rightarrow> (word_failed e, None)
      | None \<Rightarrow>
          let clean_text = clean_markdown_text markdown_content;
              footnotes = extract_footnotes clean_text;
              main_text = remove_footnote_content_from_main clean_text footnotes;
              rtl = (language = ustr ''rtl'' \<or>
                     (language = ustr ''auto'' \<and> detect_arabic_text main_text));
              paragraph = \<lparr>paragraph_text = main_text, right_to_left = rtl, word_footnotes = []\<rparr>;
              (inserted_refs, doc) = reinject (FindString env) footnotes main_text paragraph;
              output_file = joined_path env output_dir
                 (ustr ''processed_document_'' @ str_nat (card inserted_refs) @
                  ustr ''_footnotes.docx'')
          in (case save_raises env of
                Some e \<Rightarrow> (word_failed e, None)
              | None \<Rightarrow>
                  ([(''success'', PBool True),
                    (''word_file'', PStr output_file),
                    (''footnotes_count'', PInt (int (card inserted_refs))),
                    (''total_footnotes_detected'', PInt (int (length footnotes))),
                    (''language'', PStr (if right_to_left doc then ustr ''rtl'' else ustr ''ltr''))],
                   Some doc)))"

text \<open>
  A sample target document for the concrete runs below: it finds the first literal
  occurrence of the marker in the paragraph text and answers with its offset; nothing
  raises, and the output directory has a plain name, so that the path is directory,
  slash, file name.
\<close>

fun find_first :: "ustring \<Rightarrow> ustring \<Rightarrow> nat option" where
  "find_first pat [] = (if pat = [] then Some 0 else None)"
| "find_first pat (c # cs) =
     (if take (length pat) (c # cs) = pat then Some 0
      else map_option Suc (find_first pat cs))"

definition literal_search :: spire where
  "literal_search =
     \<lparr>mkdir_raises = None,
      FindString = (\<lambda>doc marker. find_first marker (paragraph_text doc)),
      save_raises = None,
      joined_path = (\<lambda>dir name. dir @ ustr ''/'' @ name)\<rparr>"

text \<open>A target document in which no marker is ever located.\<close>

definition nothing_found :: spire where
  "nothing_found =
     \<lparr>mkdir_raises = None, FindString = (\<lambda>doc marker. None), save_raises = None,
      joined_path = (\<lambda>dir name. dir @ ustr ''/'' @ name)\<rparr>"

section \<open>Python floats\<close>

text \<open>
  A Python \<open>float\<close> is an IEEE 754 binary64 number. A finite one is a rational number, and
  an arithmetic operation returns the exact result rounded to the nearest number with a
  53-bit significand, ties going to the even significand. \<open>round_double\<close> is that
  rounding. The exponent range is not bounded here: overflow and subnormal numbers, which
  quotients of page counts never reach, are outside the model.
\<close>

definition round_double :: "rat \<Rightarrow> rat" where
  "round_double x =
     (if x = 0 then 0
      else let a = \<bar>x\<bar>;
               (p, q) = quotient_of a;
               e0 = bitlen p - bitlen q;
               e = (if 2 powi e0 \<le> a then e0 else e0 - 1);
               ulp = 2 powi (e - 52);
               m = a / ulp;
               n = \<lfloor>m\<rfloor>;
               r = m - of_int n;
               n' = (if r < 1 / 2 then n
                     else if 1 / 2 < r then n + 1
                     else if even n then n else n + 1)
           in sgn x * of_int n' * ulp)"

definition fdiv :: "rat \<Rightarrow> rat \<Rightarrow> rat" where
  "fdiv x y = round_double (x / y)"

definition fadd :: "rat \<Rightarrow> rat \<Rightarrow> rat" where
  "fadd x y = round_double (x + y)"

section \<open>The structural classifier of \<open>pdf_processor.py\<close>\<close>

text \<open>
  A Python exception of class \<open>Exception\<close>, with the text \<open>str(e)\<close>. What PyMuPDF
  delivers for a file: opening it raises or gives the pages; reading a page (\<open>doc[idx]\<close>,
  \<open>get_text\<close>, \<open>get_fonts\<close>) raises or gives its area \<open>abs(page.rect)\<close>, its blocks
  and the number of its fonts. A block is a tuple: its length, the area
  \<open>abs(fitz.Rect(block[:4]))\<close>, the text \<open>block[4]\<close> and the type \<open>block[6]\<close>.
\<close>

datatype exn = Exn ustring

record block =
  block_len :: nat
  rect_area :: rat
  block_text :: ustring
  block_type :: int

record page =
  page_area :: rat
  blocks :: "block list"
  fonts :: nat

type_synonym pdf = "(exn + page) list"

datatype page_kind = ImagePage | TextPage | AmbiguousPage

text \<open>The loop over the blocks of a page: the text area and the image area.\<close>

definition block_areas :: "block list \<Rightarrow> rat \<times> rat" where
  "block_areas bs =
     foldl (\<lambda>(text_area, image_area) b.
         if block_len b > 6
         then (if block_type b = 0
               then (if strip (block_text b) \<noteq> []
                     then (fadd text_area (rect_area b), image_area)
                     else (text_area, image_area))
               else if block_type b = 1
               then (text_area, fadd image_area (rect_area b))
               else (text_area, image_area))
         else (text_area, image_area))
       (0, 0) bs"

text \<open>The classification of one page, with the thresholds of the source.\<close>

definition classify_page :: "page \<Rightarrow> page_kind" where
  "classify_page pg =
     (let (text_area, image_area) = block_areas (blocks pg);
          text_coverage = (if page_area pg > 0 then fdiv text_area (page_area pg) else 0);
          image_coverage = (if page_area pg > 0 then fdiv image_area (page_area pg) else 0);
          has_fonts = (fonts pg > 0);
          image_threshold = round_double (8 / 10);
          text_threshold = round_double (5 / 100)
      in if image_coverage > image_threshold \<or>
            (text_coverage < round_double (1 / 100) \<and> \<not> has_fonts)
         then ImagePage
         else if text_coverage > text_threshold \<and> has_fonts then TextPage
         else AmbiguousPage)"

definition sample_size :: "nat \<Rightarrow> nat" where
  "sample_size total_pages = min 10 (max 1 (total_pages div 20))"

definition sample_indices :: "nat \<Rightarrow> nat list" where
  "sample_indices total_pages =
     map (\<lambda>i. i * total_pages div sample_size total_pages) [0..<sample_size total_pages]"

text \<open>
  The loop over the sampled indices; the state is \<open>image_pages\<close>, \<open>text_pages\<close> and
  \<open>ambiguous_pages\<close>. An exception leaves the loop.
\<close>

fun count_pages :: "pdf \<Rightarrow> nat \<Rightarrow> nat list \<Rightarrow> nat \<times> nat \<times> nat \<Rightarrow> exn + nat \<times> nat \<times> nat" where
  "count_pages doc total_pages [] counts = Inr counts"
| "count_pages doc total_pages (idx # rest) (image_pages, text_pages, ambiguous_pages) =
     (if idx \<ge> total_pages
      then count_pages doc total_pages rest (image_pages, text_pages, ambiguous_pages)
      else (case doc ! idx of
              Inl e \<Rightarrow> Inl e
            | Inr pg \<Rightarrow>
                (case classify_page pg of
                   ImagePage \<Rightarrow>
                     count_pages doc total_pages rest (image_pages + 1, text_pages, ambiguous_pages)
                 | TextPage \<Rightarrow>
                     count_pages doc total_pages rest (image_pages, text_pages + 1, ambiguous_pages)
                 | AmbiguousPage \<Rightarrow>
                     count_pages doc total_pages rest (image_pages, text_pages, ambiguous_pages + 1))))"

text \<open>\<open>image_ratio\<close>, \<open>text_ratio\<close> and \<open>ambiguous_ratio\<close>: float quotients.\<close>

definition ratios :: "nat \<Rightarrow> nat \<times> nat \<times> nat \<Rightarrow> rat \<times> rat \<times> rat" where
  "ratios sample counts =
     (case counts of (image_pages, text_pages, ambiguous_pages) \<Rightarrow>
        (fdiv (of_nat image_pages) (of_nat (max sample 1)),
         fdiv (of_nat text_pages) (of_nat (max sample 1)),
         fdiv (of_nat ambiguous_pages) (of_nat (max sample 1))))"

text \<open>
  The three ratios of a document with at least one page (the value of the local
  variables before the decision), or the exception raised on the way.
\<close>

definition page_ratios :: "pdf \<Rightarrow> exn + rat \<times> rat \<times> rat" where
  "page_ratios doc =
     (let total_pages = length doc
      in case count_pages doc total_pages (sample_indices total_pages) (0, 0, 0) of
           Inl e \<Rightarrow> Inl e
         | Inr counts \<Rightarrow> Inr (ratios (sample_size total_pages) counts))"

text \<open>The body of the \<open>try\<close> statement of \<open>detect_pdf_type\<close>.\<close>

definition detect_body :: "exn + pdf \<Rightarrow> exn + ustring" where
  "detect_body opened =
     (case opened of
        Inl e \<Rightarrow> Inl e
      | Inr doc \<Rightarrow>
          if length doc = 0 then Inr (ustr ''unknown'')
          else (case page_ratios doc of
                  Inl e \<Rightarrow> Inl e
                | Inr (image_ratio, text_ratio, ambiguous_ratio) \<Rightarrow>
                    let majority = round_double (6 / 10)
                    in if image_ratio > majority then Inr (ustr ''image_based'')
                       else if text_ratio > majority then Inr (ustr ''text_based'')
                       else Inr (ustr ''mixed'')))"

text \<open>\<open>PDFProcessor.detect_pdf_type\<close>: the handler turns every exception into a label.\<close>

definition detect_pdf_type :: "exn + pdf \<Rightarrow> ustring" where
  "detect_pdf_type opened =
     (case detect_body opened of Inl e \<Rightarrow> ustr ''unknown'' | Inr pdf_type \<Rightarrow> pdf_type)"

section \<open>The orchestration of \<open>pdf_processor.py\<close>\<close>

datatype ProcessingMode = FAST | RICH | PRO

fun mode_value :: "ProcessingMode \<Rightarrow> ustring" where
  "mode_value FAST = ustr ''fast''"
| "mode_value RICH = ustr ''rich''"
| "mode_value PRO = ustr ''pro''"

text \<open>The three extraction engines behind \<open>PDFParsers\<close>.\<close>

datatype engine = Pdfplumber | Markitdown | AgenticDoc

text \<open>
  What the outside world decides for one call of \<open>process_pdf\<close>: whether the file exists,
  the stem of its name, what opening it gives, what each parser returns (or raises) on
  it, whether the result could be written, and whether rendering the result on the
  console (\<open>display_results\<close>) raises.
\<close>

record pdf_file =
  file_exists :: bool
  base_name :: ustring
  opened :: "exn + pdf"
  parse :: "engine \<Rightarrow> exn + pydict"
  saved :: bool
  display_raises :: "ustring option"

text \<open>The truth value of \<open>result.get(key)\<close>.\<close>

definition truthy :: "pyval option \<Rightarrow> bool" where
  "truthy v =
     (case v of
        None \<Rightarrow> False
      | Some (PBool b) \<Rightarrow> b
      | Some (PInt n) \<Rightarrow> n \<noteq> 0
      | Some (PStr s) \<Rightarrow> s \<noteq> [])"

text \<open>
  The \<open>try\<close> statement at the end of \<open>process_pdf\<close>: the parser of the mode is called and
  its result returned, with the path of the written file added; an exception of the
  parser, of the lookup of \<open>markdown_content\<close> or of the rendering is caught and
  reported. The second component lists the engines that were invoked.
\<close>

definition unexpected :: "ustring \<Rightarrow> pydict" where
  "unexpected e =
     [(''success'', PBool False),
      (''error'', PStr (ustr ''Unexpected error during processing: '' @ e))]"

definition run_parser :: "pdf_file \<Rightarrow> ProcessingMode \<Rightarrow> pydict \<times> engine list" where
  "run_parser f mode =
     (let eng = (case mode of FAST \<Rightarrow> Pdfplumber | RICH \<Rightarrow> Markitdown | PRO \<Rightarrow> AgenticDoc)
      in case parse f eng of
           Inl (Exn e) \<Rightarrow> (unexpected e, [eng])
         | Inr result \<Rightarrow>
             if truthy (map_of result ''success'')
             then (case map_of result ''markdown_content'' of
                     None \<Rightarrow> (unexpected ([39] @ ustr ''markdown_content'' @ [39]), [eng])
                   | Some content \<Rightarrow>
                       let output_path = ustr ''outputs/'' @ mode_value mode @ ustr ''_'' @
                             base_name f @ ustr ''.md'';
                           result = (if saved f
                                     then dict_set ''markdown_file'' (PStr output_path) result
                                     else result)
                       in (case display_raises f of
                             Some e \<Rightarrow> (unexpected e, [eng])
                           | None \<Rightarrow> (result, [eng])))
             else (result, [eng]))"

text \<open>\<open>PDFProcessor.process_pdf\<close>\<close>

definition process_pdf :: "pdf_file \<Rightarrow> ProcessingMode \<Rightarrow> bool \<Rightarrow> pydict \<times> engine list" where
  "process_pdf f mode auto_detect =
     (if \<not> file_exists f
      then ([(''success'', PBool False), (''error'', PStr (ustr ''File not found''))], [])
      else let pdf_type = detect_pdf_type (opened f)
        in if (mode = FAST \<or> mode = RICH) \<and>
              (pdf_type = ustr ''image_based'' \<or> pdf_type = ustr ''mixed'')
           then ([(''success'', PBool False),
                  (''error'', PStr (ustr ''Cannot process '' @ pdf_type @ ustr '' PDF with '' @
                                     mode_value mode @ ustr '' mode'')),
                  (''pdf_type'', PStr pdf_type),
                  (''requires_upgrade'', PBool True),
                  (''recommended_mode'', PStr (ustr ''pro''))], [])
           else let mode = (if auto_detect
                            then (if pdf_type = ustr ''image_based'' \<and> mode \<noteq> PRO then PRO
                                  else mode)
                            else mode)
             in run_parser f mode)"

section \<open>Sample inputs\<close>

text \<open>
  A scanned page: no block and no font, so nothing but an image can be on it. A file of
  one such page, on which every parser succeeds with a short text.
\<close>

definition scan_page :: page where
  "scan_page = \<lparr>page_area = 100, blocks = [], fonts = 0\<rparr>"

definition parsed_text :: pydict where
  "parsed_text = [(''success'', PBool True), (''markdown_content'', PStr (ustr ''text''))]"

definition scan_file :: pdf_file where
  "scan_file =
     \<lparr>file_exists = True, base_name = ustr ''scan'', opened = Inr [Inr scan_page],
      parse = (\<lambda>eng. Inr parsed_text), saved = True, display_raises = None\<rparr>"

lemma detect_scan_file: "detect_pdf_type (opened scan_file) = ustr ''image_based''"
  by code_simp



section \<open>The mode policy\<close>

text \<open>
  C1. For a file that exists, whatever \<open>auto_detect\<close> is: when the requested mode is fast
  or rich and \<open>detect_pdf_type\<close> answers \<open>image_based\<close> or \<open>mixed\<close>, \<open>process_pdf\<close>
  returns the rejection, with \<open>success\<close> false, the document class under \<open>pdf_type\<close>,
  the requested mode in the error message and \<open>recommended_mode\<close> \<open>pro\<close>, and no
  extraction engine has been invoked.
\<close>

theorem process_pdf_rejects:
  assumes "file_exists f"
    and "mode = FAST \<or> mode = RICH"
    and "detect_pdf_type (opened f) = ustr ''image_based'' \<or>
         detect_pdf_type (opened f) = ustr ''mixed''"
  shows "process_pdf f mode auto_detect =
           ([(''success'', PBool False),
             (''error'', PStr (ustr ''Cannot process '' @ detect_pdf_type (opened f) @
                                ustr '' PDF with '' @ mode_value mode @ ustr '' mode'')),
             (''pdf_type'', PStr (detect_pdf_type (opened f))),
             (''requires_upgrade'', PBool True),
             (''recommended_mode'', PStr (ustr ''pro''))], [])"
  using assms by (auto simp: process_pdf_def Let_def)

theorem process_pdf_rejects_witness:
  "file_exists scan_file \<and> (FAST = FAST \<or> FAST = RICH) \<and>
   (detect_pdf_type (opened scan_file) = ustr ''image_based'' \<or>
    detect_pdf_type (opened scan_file) = ustr ''mixed'') \<and>
   process_pdf scan_file FAST True =
     ([(''success'', PBool False),
       (''error'', PStr (ustr ''Cannot process image_based PDF with fast mode'')),
       (''pdf_type'', PStr (ustr ''image_based'')),
       (''requires_upgrade'', PBool True),
       (''recommended_mode'', PStr (ustr ''pro''))], [])"
proof -
  have e: "file_exists scan_file"
    by (simp add: scan_file_def)
  have d: "detect_pdf_type (opened scan_file) = ustr ''image_based'' \<or>
           detect_pdf_type (opened scan_file) = ustr ''mixed''"
    using detect_scan_file by simp
  have m: "FAST = FAST \<or> FAST = RICH"
    by simp
  show ?thesis
    using e d process_pdf_rejects [OF e m d, of True] detect_scan_file
    by (simp add: ustr_def)
qed





section \<open>The classifier never raises\<close>

lemma detect_pdf_type_labels:
  "detect_pdf_type opened_doc \<in>
     {ustr ''unknown'', ustr ''image_based'', ustr ''text_based'', ustr ''mixed''}"
  by (auto simp: detect_pdf_type_def detect_body_def Let_def split: sum.splits prod.splits)

lemma count_pages_raises:
  assumes "idx \<in> set idxs" and "idx < total_pages" and "doc ! idx = Inl e"
  shows "\<exists>e'. count_pages doc total_pages idxs counts = Inl e'"
  using assms
proof (induction idxs arbitrary: counts)
  case Nil
  then show ?case by simp
next
  case (Cons i rest)
  obtain a b c where counts: "counts = (a, b, c)"
    by (cases counts) auto
  show ?case
  proof (cases "i = idx")
    case True
    with Cons.prems show ?thesis
      by (simp add: counts)
  next
    case False
    with Cons.prems have "idx \<in> set rest" by simp
    then have "\<And>cs. \<exists>e'. count_pages doc total_pages rest cs = Inl e'"
      using Cons.IH Cons.prems by blast
    then show ?thesis
      by (auto simp: counts split: sum.splits page_kind.splits)
  qed
qed

text \<open>
  C8. \<open>detect_pdf_type\<close> returns a label for every input, so nothing is raised to the
  caller: the label is \<open>unknown\<close> for a file that cannot be opened, for a document with
  zero pages, and for a document one of whose sampled pages raises when it is read.
\<close>

theorem detect_pdf_type_unknown:
  "detect_pdf_type (Inl e) = ustr ''unknown'' \<and>
   detect_pdf_type (Inr []) = ustr ''unknown'' \<and>
   ((\<exists>idx \<in> set (sample_indices (length doc)). idx < length doc \<and> isl (doc ! idx)) \<longrightarrow>
      detect_pdf_type (Inr doc) = ustr ''unknown'') \<and>
   detect_pdf_type opened_doc \<in>
     {ustr ''unknown'', ustr ''image_based'', ustr ''text_based'', ustr ''mixed''}"
proof (intro conjI impI)
  show "detect_pdf_type (Inl e) = ustr ''unknown''"
    by (simp add: detect_pdf_type_def detect_body_def)
  show "detect_pdf_type (Inr []) = ustr ''unknown''"
    by (simp add: detect_pdf_type_def detect_body_def)
  show "detect_pdf_type opened_doc \<in>
     {ustr ''unknown'', ustr ''image_based'', ustr ''text_based'', ustr ''mixed''}"
    by (rule detect_pdf_type_labels)
next
  assume "\<exists>idx \<in> set (sample_indices (length doc)). idx < length doc \<and> isl (doc ! idx)"
  then obtain idx x where "idx \<in> set (sample_indices (length doc))" "idx < length doc"
    "doc ! idx = Inl x"
    by (auto simp: isl_def)
  then obtain e' where
    "count_pages doc (length doc) (sample_indices (length doc)) (0, 0, 0) = Inl e'"
    using count_pages_raises by blast
  then show "detect_pdf_type (Inr doc) = ustr ''unknown''"
    by (simp add: detect_pdf_type_def detect_body_def page_ratios_def)
qed

text \<open>A file of one page that cannot be read.\<close>

definition broken_pdf :: pdf where
  "broken_pdf = [Inl (Exn (ustr ''cannot load page''))]"

theorem detect_pdf_type_unknown_witness:
  "(\<exists>idx \<in> set (sample_indices (length broken_pdf)).
      idx < length broken_pdf \<and> isl (broken_pdf ! idx)) \<and>
   detect_pdf_type (Inr broken_pdf) = ustr ''unknown''"
proof -
  have h: "\<exists>idx \<in> set (sample_indices (length broken_pdf)).
      idx < length broken_pdf \<and> isl (broken_pdf ! idx)"
    by (simp add: broken_pdf_def sample_indices_def sample_size_def)
  show ?thesis
    using h detect_pdf_type_unknown [of "Exn []" broken_pdf "Inr broken_pdf"]
    by blast
qed

section \<open>The footnote pipeline on sample texts\<close>

lemmas char_defs = is_space_def is_digit_def decimal_zeros_def ustr_def

lemmas word_defs = extract_footnotes_def match_footnote_def dot_plus_eol_def strip_def
  match_inline_def remove_footnote_content_from_main_def clean_markdown_text_def
  detect_arabic_text_def reinject_def

text \<open>
  The text of the round trip: a sentence with the inline marker, then the footnote line.
  The same text with the number of the footnote line written as the Arabic-Indic digit
  one (U+0661).
\<close>

definition round_trip_text :: ustring where
  "round_trip_text = ustr ''See (1) here.'' @ [LF] @ ustr ''(1) Note body text''"

definition arabic_text :: ustring where
  "arabic_text = ustr ''See (1) here.'' @ [LF] @ [LPAR, 0x661, RPAR] @ ustr '' Note body text''"

lemma extract_round_trip:
  "extract_footnotes round_trip_text = [(ustr ''1'', ustr ''Note body text'')]"
  by (simp add: round_trip_text_def word_defs char_defs)



text \<open>
  C3 does not hold of the code. The number is added to \<open>inserted_refs\<close> before
  \<open>FindString\<close> is called: with a target document that locates no marker, the round-trip
  text gives \<open>footnotes_count = 1\<close> and \<open>total_footnotes_detected = 1\<close>, and the saved
  document has no footnote.
\<close>

theorem counted_but_not_inserted:
  "process_to_word nothing_found round_trip_text (ustr ''outputs'') (ustr ''auto'') =
     ([(''success'', PBool True),
       (''word_file'', PStr (ustr ''outputs/processed_document_1_footnotes.docx'')),
       (''footnotes_count'', PInt 1),
       (''total_footnotes_detected'', PInt 1),
       (''language'', PStr (ustr ''ltr''))],
      Some \<lparr>paragraph_text = ustr ''See (1) here.'' @ [LF] @ ustr ''(1)'',
            right_to_left = False, word_footnotes = []\<rparr>)"
  by (simp add: process_to_word_def nothing_found_def round_trip_text_def word_defs char_defs
      str_nat.simps)

lemma normalize_arabic: "normalize_arabic_text arabic_text = round_trip_text"
  by (simp add: normalize_arabic_text_def arabic_text_def round_trip_text_def
      translate_digit_def invisible_mark_def ustr_def)

lemma process_western:
  "process_to_word literal_search round_trip_text (ustr ''outputs'') (ustr ''auto'') =
     ([(''success'', PBool True),
       (''word_file'', PStr (ustr ''outputs/processed_document_1_footnotes.docx'')),
       (''footnotes_count'', PInt 1),
       (''total_footnotes_detected'', PInt 1),
       (''language'', PStr (ustr ''ltr''))],
      Some \<lparr>paragraph_text = ustr ''See (1) here.'' @ [LF] @ ustr ''(1)'',
            right_to_left = False,
            word_footnotes = [\<lparr>reference = ustr ''1'', anchor = 5,
                                footnote_text = ustr ''Note body text''\<rparr>]\<rparr>)"
  by (simp add: process_to_word_def literal_search_def round_trip_text_def word_defs char_defs
      str_nat.simps)

lemma process_arabic:
  "process_to_word literal_search arabic_text (ustr ''outputs'') (ustr ''auto'') =
     ([(''success'', PBool True),
       (''word_file'', PStr (ustr ''outputs/processed_document_1_footnotes.docx'')),
       (''footnotes_count'', PInt 1),
       (''total_footnotes_detected'', PInt 1),
       (''language'', PStr (ustr ''rtl''))],
      Some \<lparr>paragraph_text = ustr ''See (1) here.'' @ [LF] @ [LPAR, 0x661, RPAR],
            right_to_left = True,
            word_footnotes = [\<lparr>reference = [0x661], anchor = 15,
                                footnote_text = ustr ''Note body text''\<rparr>]\<rparr>)"
  by (simp add: process_to_word_def literal_search_def arabic_text_def word_defs char_defs
      str_nat.simps)

text \<open>
  C2 does not hold of the code. \<open>process_to_word\<close> never calls
  \<open>normalize_arabic_text\<close>: the footnote line written with the Arabic-Indic digit is
  extracted under the key U+0661, which the Western inline marker does not match, so the
  footnote is attached to the leftover marker of the footnote line (offset 14) and not to
  the inline marker (offset 4), and the document is set right to left. The normalised
  text is the Western one, on which the pipeline answers differently.
\<close>

theorem arabic_digits_not_normalized:
  "normalize_arabic_text arabic_text = round_trip_text \<and>
   extract_footnotes arabic_text = [([0x661], ustr ''Note body text'')] \<and>
   extract_footnotes round_trip_text = [(ustr ''1'', ustr ''Note body text'')] \<and>
   process_to_word literal_search arabic_text (ustr ''outputs'') (ustr ''auto'') \<noteq>
   process_to_word literal_search round_trip_text (ustr ''outputs'') (ustr ''auto'')"
proof (intro conjI)
  show "extract_footnotes arabic_text = [([0x661], ustr ''Note body text'')]"
    by (simp add: arabic_text_def word_defs char_defs)
  show "process_to_word literal_search arabic_text (ustr ''outputs'') (ustr ''auto'') \<noteq>
        process_to_word literal_search round_trip_text (ustr ''outputs'') (ustr ''auto'')"
    unfolding process_arabic process_western by (simp add: ustr_def)
qed (rule normalize_arabic extract_round_trip)+

section \<open>Reinjection\<close>

text \<open>
  A text with the marker \<open>(2)\<close> three times, and a text whose markers come in the order
  2, 1, 2.
\<close>

definition three_markers :: ustring where
  "three_markers = ustr ''a (2) b (2) c (2)''"

definition two_numbers :: ustring where
  "two_numbers = ustr ''b (2) a (1) c (2)''"

lemma insert_footnotes_distinct:
  assumes "distinct (map reference (word_footnotes doc))"
    and "reference ` set (word_footnotes doc) \<subseteq> refs"
  shows "distinct (map reference (word_footnotes (snd (insert_footnotes fs fm ms (refs, doc))))) \<and>
         reference ` set (word_footnotes (snd (insert_footnotes fs fm ms (refs, doc)))) \<subseteq>
           fst (insert_footnotes fs fm ms (refs, doc))"
  using assms
proof (induction ms arbitrary: refs doc)
  case Nil
  then show ?case by simp
next
  case (Cons m ms)
  obtain grp num where m: "m = (grp, num)"
    by (cases m) auto
  show ?case
  proof (cases "map_of fm num")
    case None
    with Cons show ?thesis by (simp add: m)
  next
    case (Some note_text)
    show ?thesis
    proof (cases "num \<in> refs")
      case True
      with Some Cons show ?thesis by (simp add: m)
    next
      case False
      let ?doc' = "case fs doc grp of
                     None \<Rightarrow> doc
                   | Some index \<Rightarrow>
                       doc\<lparr>word_footnotes := word_footnotes doc @
                         [\<lparr>reference = num, anchor = index + 1, footnote_text = note_text\<rparr>]\<rparr>"
      have d: "distinct (map reference (word_footnotes ?doc'))"
        using Cons.prems False by (auto split: option.splits)
      have r: "reference ` set (word_footnotes ?doc') \<subseteq> insert num refs"
        using Cons.prems by (auto split: option.splits)
      from Cons.IH [OF d r] Some False show ?thesis
        by (simp add: m)
    qed
  qed
qed

lemma remdups_snoc: "remdups (ys @ [n]) = filter (\<lambda>x. x \<noteq> n) (remdups ys) @ [n]"
  by (induction ys) auto

lemma first_occurrence_step:
  assumes "n \<notin> refs"
  shows "rev (remdups (rev (filter (\<lambda>x. P x \<and> x \<notin> refs) (n # xs)))) =
         (if P n then n # rev (remdups (rev (filter (\<lambda>x. P x \<and> x \<notin> insert n refs) xs)))
          else rev (remdups (rev (filter (\<lambda>x. P x \<and> x \<notin> refs) xs))))"
proof (cases "P n")
  case True
  have f: "filter (\<lambda>x. x \<noteq> n) (filter (\<lambda>x. P x \<and> x \<notin> refs) xs) =
           filter (\<lambda>x. P x \<and> x \<notin> insert n refs) xs"
    by (induction xs) auto
  have "rev (remdups (rev (filter (\<lambda>x. P x \<and> x \<notin> refs) (n # xs)))) =
        rev (remdups (rev (filter (\<lambda>x. P x \<and> x \<notin> refs) xs) @ [n]))"
    using True assms by simp
  also have "\<dots> = n # rev (filter (\<lambda>x. x \<noteq> n) (remdups (rev (filter (\<lambda>x. P x \<and> x \<notin> refs) xs))))"
    by (simp add: remdups_snoc)
  also have "filter (\<lambda>x. x \<noteq> n) (remdups (rev (filter (\<lambda>x. P x \<and> x \<notin> refs) xs))) =
             remdups (rev (filter (\<lambda>x. x \<noteq> n) (filter (\<lambda>x. P x \<and> x \<notin> refs) xs)))"
    by (simp only: remdups_filter rev_filter)
  finally show ?thesis
    using True by (simp only: f if_True)
next
  case False
  then show ?thesis by simp
qed

lemma insert_footnotes_order:
  assumes "\<And>g n d. (g, n) \<in> set ms \<Longrightarrow> paragraph_text d = paragraph_text doc \<Longrightarrow> fs d g \<noteq> None"
  shows "map reference (word_footnotes (snd (insert_footnotes fs fm ms (refs, doc)))) =
         map reference (word_footnotes doc) @
         rev (remdups (rev (filter (\<lambda>n. map_of fm n \<noteq> None \<and> n \<notin> refs) (map snd ms))))"
  using assms
proof (induction ms arbitrary: refs doc)
  case Nil
  then show ?case by simp
next
  case (Cons m ms)
  obtain grp num where m: "m = (grp, num)"
    by (cases m) auto
  have found: "\<And>g n d. (g, n) \<in> set ms \<Longrightarrow> paragraph_text d = paragraph_text doc \<Longrightarrow> fs d g \<noteq> None"
    using Cons.prems by (meson list.set_intros(2))
  show ?case
  proof (cases "num \<in> refs")
    case True
    then show ?thesis
      using Cons.IH [of doc refs] found by (simp add: m split: option.splits)
  next
    case False
    show ?thesis
    proof (cases "map_of fm num")
      case None
      then show ?thesis
        using Cons.IH [of doc refs] found False
        by (simp add: m first_occurrence_step [OF False])
    next
      case (Some note_text)
      obtain index where index: "fs doc grp = Some index"
        using Cons.prems [of grp num doc] by (auto simp: m)
      let ?doc' = "doc\<lparr>word_footnotes := word_footnotes doc @
                         [\<lparr>reference = num, anchor = index + 1, footnote_text = note_text\<rparr>]\<rparr>"
      have "map reference (word_footnotes (snd (insert_footnotes fs fm ms (insert num refs, ?doc')))) =
            map reference (word_footnotes ?doc') @
            rev (remdups (rev (filter (\<lambda>n. map_of fm n \<noteq> None \<and> n \<notin> insert num refs) (map snd ms))))"
        by (rule Cons.IH) (use found in simp)
      moreover have "rev (remdups (rev (filter (\<lambda>n. map_of fm n \<noteq> None \<and> n \<notin> refs)
                (map snd (m # ms))))) =
            num # rev (remdups (rev (filter (\<lambda>n. map_of fm n \<noteq> None \<and> n \<notin> insert num refs)
                (map snd ms))))"
        unfolding m list.map snd_conv
        by (subst first_occurrence_step [OF False]) (simp add: Some)
      moreover have "insert_footnotes fs fm (m # ms) (refs, doc) =
            insert_footnotes fs fm ms (insert num refs, ?doc')"
        using Some False index by (simp add: m)
      ultimately show ?thesis
        by simp
    qed
  qed
qed

lemma inline_three: "inline_matches three_markers =
    [(ustr ''(2)'', ustr ''2''), (ustr ''(2)'', ustr ''2''), (ustr ''(2)'', ustr ''2'')]"
  by (simp add: three_markers_def word_defs char_defs)

text \<open>
  C6. Whatever the target document finds, the footnotes appended by reinjection belong
  to pairwise distinct reference numbers: at most one per number, however often its
  marker occurs. When the target document finds every marker of the text, the numbers of
  the appended footnotes are, in this order, the numbers of the map in the order of their
  first occurrence in the text. In particular, a text with \<open>(2)\<close> three times and a map
  that defines \<open>2\<close> gets exactly one footnote, at the first occurrence.
\<close>

theorem one_footnote_per_number:
  "distinct (map reference (word_footnotes (snd (reinject fs fm text
      \<lparr>paragraph_text = text, right_to_left = rtl, word_footnotes = []\<rparr>)))) \<and>
   ((\<forall>(g, n) \<in> set (inline_matches text). \<forall>d. paragraph_text d = text \<longrightarrow> fs d g \<noteq> None) \<longrightarrow>
      map reference (word_footnotes (snd (reinject fs fm text
        \<lparr>paragraph_text = text, right_to_left = rtl, word_footnotes = []\<rparr>))) =
      rev (remdups (rev (filter (\<lambda>n. map_of fm n \<noteq> None) (map snd (inline_matches text)))))) \<and>
   reinject (FindString literal_search) [(ustr ''2'', ustr ''note'')] three_markers
       \<lparr>paragraph_text = three_markers, right_to_left = False, word_footnotes = []\<rparr> =
     ({ustr ''2''},
      \<lparr>paragraph_text = three_markers, right_to_left = False,
       word_footnotes = [\<lparr>reference = ustr ''2'', anchor = 3, footnote_text = ustr ''note''\<rparr>]\<rparr>)"
proof (intro conjI impI)
  show "distinct (map reference (word_footnotes (snd (reinject fs fm text
      \<lparr>paragraph_text = text, right_to_left = rtl, word_footnotes = []\<rparr>))))"
    unfolding reinject_def
    using insert_footnotes_distinct
      [of "\<lparr>paragraph_text = text, right_to_left = rtl, word_footnotes = []\<rparr>" "{}"]
    by simp
next
  assume a: "\<forall>(g, n) \<in> set (inline_matches text). \<forall>d. paragraph_text d = text \<longrightarrow> fs d g \<noteq> None"
  have "map reference (word_footnotes (snd (insert_footnotes fs fm (inline_matches text)
          ({}, \<lparr>paragraph_text = text, right_to_left = rtl, word_footnotes = []\<rparr>)))) =
        map reference (word_footnotes \<lparr>paragraph_text = text, right_to_left = rtl, word_footnotes = []\<rparr>) @
        rev (remdups (rev (filter (\<lambda>n. map_of fm n \<noteq> None \<and> n \<notin> {}) (map snd (inline_matches text)))))"
    by (rule insert_footnotes_order) (use a in auto)
  then show "map reference (word_footnotes (snd (reinject fs fm text
        \<lparr>paragraph_text = text, right_to_left = rtl, word_footnotes = []\<rparr>))) =
      rev (remdups (rev (filter (\<lambda>n. map_of fm n \<noteq> None) (map snd (inline_matches text)))))"
    by (simp add: reinject_def)
next
  show "reinject (FindString literal_search) [(ustr ''2'', ustr ''note'')] three_markers
       \<lparr>paragraph_text = three_markers, right_to_left = False, word_footnotes = []\<rparr> =
     ({ustr ''2''},
      \<lparr>paragraph_text = three_markers, right_to_left = False,
       word_footnotes = [\<lparr>reference = ustr ''2'', anchor = 3, footnote_text = ustr ''note''\<rparr>]\<rparr>)"
    unfolding reinject_def inline_three
    by (simp add: literal_search_def three_markers_def ustr_def)
qed

lemma inline_two: "inline_matches two_numbers =
    [(ustr ''(2)'', ustr ''2''), (ustr ''(1)'', ustr ''1''), (ustr ''(2)'', ustr ''2'')]"
  by (simp add: two_numbers_def word_defs char_defs)

theorem one_footnote_per_number_witness:
  "inline_matches two_numbers =
     [(ustr ''(2)'', ustr ''2''), (ustr ''(1)'', ustr ''1''), (ustr ''(2)'', ustr ''2'')] \<and>
   find_first (ustr ''(2)'') two_numbers = Some 2 \<and>
   find_first (ustr ''(1)'') two_numbers = Some 8 \<and>
   map reference (word_footnotes (snd (reinject (FindString literal_search)
       [(ustr ''1'', ustr ''one''), (ustr ''2'', ustr ''two'')] two_numbers
       \<lparr>paragraph_text = two_numbers, right_to_left = False, word_footnotes = []\<rparr>))) =
     [ustr ''2'', ustr ''1'']"
proof -
  have f: "find_first (ustr ''(2)'') two_numbers = Some 2"
    "find_first (ustr ''(1)'') two_numbers = Some 8"
    by (simp_all add: two_numbers_def ustr_def)
  have h: "\<forall>(g, n) \<in> set (inline_matches two_numbers).
      \<forall>d. paragraph_text d = two_numbers \<longrightarrow> FindString literal_search d g \<noteq> None"
    unfolding inline_two by (simp add: literal_search_def f)
  have "map reference (word_footnotes (snd (reinject (FindString literal_search)
       [(ustr ''1'', ustr ''one''), (ustr ''2'', ustr ''two'')] two_numbers
       \<lparr>paragraph_text = two_numbers, right_to_left = False, word_footnotes = []\<rparr>))) =
     [ustr ''2'', ustr ''1'']"
    using h one_footnote_per_number
      [of "FindString literal_search" "[(ustr ''1'', ustr ''one''), (ustr ''2'', ustr ''two'')]"
          two_numbers False]
    unfolding inline_two by (simp add: ustr_def)
  with f inline_two show ?thesis
    by simp
qed

section \<open>The sample of pages and the three ratios\<close>

lemma sample_size_pos: "0 < sample_size P"
  by (simp add: sample_size_def)

lemma sample_size_le: "0 < P \<Longrightarrow> sample_size P \<le> P"
  by (auto simp: sample_size_def)

lemma sample_index_less:
  fixes P S i :: nat
  assumes "0 < P" and "i < S"
  shows "i * P div S < P"
proof -
  have "i * P < P * S"
    using assms by simp
  then show ?thesis
    using assms by (simp add: div_less_iff_less_mult)
qed

lemma sample_index_mono:
  fixes P S i j :: nat
  assumes "i < j" and "0 < S" and "S \<le> P"
  shows "i * P div S < j * P div S"
proof -
  have "i * P + S \<le> j * P"
  proof -
    have "i * P + S \<le> i * P + P" using assms by simp
    also have "\<dots> = Suc i * P" by simp
    also have "\<dots> \<le> j * P" using assms by (intro mult_le_mono1) simp
    finally show ?thesis .
  qed
  then have "(i * P + S) div S \<le> j * P div S"
    by (rule div_le_mono)
  moreover have "(i * P + S) div S = i * P div S + 1"
    using assms by simp
  ultimately show ?thesis by simp
qed

lemma sample_indices_length: "length (sample_indices P) = sample_size P"
  by (simp add: sample_indices_def)

lemma sample_indices_range:
  assumes "0 < P" and "idx \<in> set (sample_indices P)"
  shows "idx < P"
  using assms by (auto simp: sample_indices_def intro: sample_index_less)

lemma sample_indices_distinct:
  assumes "0 < P"
  shows "distinct (sample_indices P)"
proof -
  have "inj_on (\<lambda>i. i * P div sample_size P) {0..<sample_size P}"
  proof (rule inj_onI)
    fix x y
    assume "x \<in> {0..<sample_size P}" "y \<in> {0..<sample_size P}"
      and eq: "x * P div sample_size P = y * P div sample_size P"
    show "x = y"
    proof (rule ccontr)
      assume "x \<noteq> y"
      then consider "x < y" | "y < x" by linarith
      then show False
        using eq sample_index_mono [of x y "sample_size P" P]
          sample_index_mono [of y x "sample_size P" P]
          sample_size_pos [of P] sample_size_le [OF assms]
        by cases auto
    qed
  qed
  then show ?thesis
    by (simp add: sample_indices_def distinct_map)
qed

text \<open>The kinds of the sampled pages, in the order of the sample.\<close>

definition sampled_kinds :: "pdf \<Rightarrow> nat list \<Rightarrow> page_kind list" where
  "sampled_kinds doc idxs = map (\<lambda>idx. classify_page (projr (doc ! idx))) idxs"

lemma count_pages_kinds:
  assumes "\<forall>idx \<in> set idxs. idx < total_pages \<and> \<not> isl (doc ! idx)"
  shows "count_pages doc total_pages idxs (i, t, a) =
           Inr (i + length (filter (\<lambda>k. k = ImagePage) (sampled_kinds doc idxs)),
                t + length (filter (\<lambda>k. k = TextPage) (sampled_kinds doc idxs)),
                a + length (filter (\<lambda>k. k = AmbiguousPage) (sampled_kinds doc idxs)))"
  using assms
proof (induction idxs arbitrary: i t a)
  case Nil
  then show ?case by (simp add: sampled_kinds_def)
next
  case (Cons idx rest)
  then obtain pg where pg: "doc ! idx = Inr pg" and lt: "idx < total_pages"
    by (cases "doc ! idx") auto
  have rest: "\<forall>idx \<in> set rest. idx < total_pages \<and> \<not> isl (doc ! idx)"
    using Cons.prems by simp
  show ?case
    using Cons.IH [OF rest] pg lt
    by (cases "classify_page pg") (simp_all add: sampled_kinds_def)
qed

lemma kinds_partition:
  "length (filter (\<lambda>k. k = ImagePage) ks) + length (filter (\<lambda>k. k = TextPage) ks) +
   length (filter (\<lambda>k. k = AmbiguousPage) ks) = length ks"
proof (induction ks)
  case Nil
  then show ?case by simp
next
  case (Cons k ks)
  then show ?case by (cases k) simp_all
qed

text \<open>
  A page of text (one text block over half the page, one font), a page with a font and
  no block, which is neither image-like nor text-like, and a document of 120 pages: the
  first is a scan, page 20 is blank, the others are text. Its sample has six pages.
\<close>

definition text_page :: page where
  "text_page =
     \<lparr>page_area = 100,
      blocks = [\<lparr>block_len = 7, rect_area = 50, block_text = ustr ''text'', block_type = 0\<rparr>],
      fonts = 1\<rparr>"

definition blank_page :: page where
  "blank_page = \<lparr>page_area = 100, blocks = [], fonts = 1\<rparr>"

definition report_pdf :: pdf where
  "report_pdf =
     Inr scan_page # replicate 19 (Inr text_page) @ Inr blank_page # replicate 99 (Inr text_page)"

text \<open>The Python expression \<open>image_ratio + text_ratio + ambiguous_ratio\<close>.\<close>

definition ratio_sum :: "rat \<times> rat \<times> rat \<Rightarrow> rat" where
  "ratio_sum r = (case r of (image_ratio, text_ratio, ambiguous_ratio) \<Rightarrow>
     fadd (fadd image_ratio text_ratio) ambiguous_ratio)"

lemma classify_scan_page: "classify_page scan_page = ImagePage"
  by code_simp

lemma classify_text_page: "classify_page text_page = TextPage"
  by code_simp

lemma classify_blank_page: "classify_page blank_page = AmbiguousPage"
  by code_simp

lemma sixths_sum: "fadd (fadd (fdiv 1 6) (fdiv 4 6)) (fdiv 1 6) = 1 - 1 / 2 ^ 53"
  by code_simp

lemma report_pdf_indices: "sample_indices (length report_pdf) = [0, 20, 40, 60, 80, 100]"
  by (simp add: report_pdf_def sample_indices_def sample_size_def upt_rec)

lemma report_pdf_pages:
  "report_pdf ! 0 = Inr scan_page" "report_pdf ! 20 = Inr blank_page"
  "report_pdf ! 40 = Inr text_page" "report_pdf ! 60 = Inr text_page"
  "report_pdf ! 80 = Inr text_page" "report_pdf ! 100 = Inr text_page"
  by (simp_all add: report_pdf_def nth_append nth_Cons')

text \<open>
  C7, as stated, fails: the ratios are floats, and for the 120-page document (one
  image-like, four text-like and one ambiguous page in the sample) the sum of the three
  ratios is the float just below 1.
\<close>

theorem ratios_do_not_sum_to_one:
  "page_ratios report_pdf = Inr (fdiv 1 6, fdiv 4 6, fdiv 1 6) \<and>
   ratio_sum (fdiv 1 6, fdiv 4 6, fdiv 1 6) = 1 - 1 / 2 ^ 53 \<and>
   ratio_sum (fdiv 1 6, fdiv 4 6, fdiv 1 6) \<noteq> 1"
proof -
  have "length report_pdf = 120"
    by (simp add: report_pdf_def)
  then have "page_ratios report_pdf = Inr (fdiv 1 6, fdiv 4 6, fdiv 1 6)"
    using report_pdf_indices
    by (simp add: page_ratios_def report_pdf_pages classify_scan_page classify_text_page
        classify_blank_page ratios_def sample_size_def)
  then show ?thesis
    by (simp add: ratio_sum_def sixths_sum)
qed

text \<open>
  C7, amended. For every document with at least one page whose sampled pages can be
  read: the sample has \<open>S = min 10 (max 1 (P div 20))\<close> indices \<open>i * P div S\<close>, all below
  \<open>P\<close> and pairwise distinct; every sampled page is counted in exactly one of the three
  categories, so the three counts add up to \<open>S\<close>; each ratio is the float quotient of
  its count by \<open>S\<close>; and the exact fractions count / \<open>S\<close> add up to 1.
\<close>

theorem sampled_pages_partition:
  assumes "doc \<noteq> []"
    and "\<forall>idx \<in> set (sample_indices (length doc)). \<not> isl (doc ! idx)"
  shows "sample_size (length doc) = min 10 (max 1 (length doc div 20)) \<and>
         length (sample_indices (length doc)) = sample_size (length doc) \<and>
         (\<forall>idx \<in> set (sample_indices (length doc)). idx < length doc) \<and>
         distinct (sample_indices (length doc)) \<and>
         (\<exists>image_pages text_pages ambiguous_pages.
            image_pages = length (filter (\<lambda>k. k = ImagePage)
                (sampled_kinds doc (sample_indices (length doc)))) \<and>
            text_pages = length (filter (\<lambda>k. k = TextPage)
                (sampled_kinds doc (sample_indices (length doc)))) \<and>
            ambiguous_pages = length (filter (\<lambda>k. k = AmbiguousPage)
                (sampled_kinds doc (sample_indices (length doc)))) \<and>
            image_pages + text_pages + ambiguous_pages = sample_size (length doc) \<and>
            page_ratios doc =
              Inr (fdiv (of_nat image_pages) (of_nat (sample_size (length doc))),
                   fdiv (of_nat text_pages) (of_nat (sample_size (length doc))),
                   fdiv (of_nat ambiguous_pages) (of_nat (sample_size (length doc)))) \<and>
            (of_nat image_pages / of_nat (sample_size (length doc)) +
             of_nat text_pages / of_nat (sample_size (length doc)) +
             of_nat ambiguous_pages / of_nat (sample_size (length doc)) = (1 :: rat)))"
proof -
  let ?P = "length doc"
  let ?S = "sample_size ?P"
  let ?ks = "sampled_kinds doc (sample_indices ?P)"
  have P: "0 < ?P" using assms(1) by simp
  have range: "\<forall>idx \<in> set (sample_indices ?P). idx < ?P"
    using sample_indices_range [OF P] by blast
  have counts: "count_pages doc ?P (sample_indices ?P) (0, 0, 0) =
      Inr (length (filter (\<lambda>k. k = ImagePage) ?ks), length (filter (\<lambda>k. k = TextPage) ?ks),
           length (filter (\<lambda>k. k = AmbiguousPage) ?ks))"
    using count_pages_kinds [of "sample_indices ?P" ?P doc 0 0 0] range assms(2) by simp
  have sum: "length (filter (\<lambda>k. k = ImagePage) ?ks) + length (filter (\<lambda>k. k = TextPage) ?ks) +
        length (filter (\<lambda>k. k = AmbiguousPage) ?ks) = ?S"
    using kinds_partition [of ?ks] by (simp add: sampled_kinds_def sample_indices_length)
  have max: "max ?S (Suc 0) = ?S"
    using sample_size_pos [of ?P] by simp
  have ratios: "page_ratios doc =
      Inr (fdiv (of_nat (length (filter (\<lambda>k. k = ImagePage) ?ks))) (of_nat ?S),
           fdiv (of_nat (length (filter (\<lambda>k. k = TextPage) ?ks))) (of_nat ?S),
           fdiv (of_nat (length (filter (\<lambda>k. k = AmbiguousPage) ?ks))) (of_nat ?S))"
    by (simp add: page_ratios_def counts ratios_def max Let_def)
  have "(of_nat (length (filter (\<lambda>k. k = ImagePage) ?ks)) / of_nat ?S +
         of_nat (length (filter (\<lambda>k. k = TextPage) ?ks)) / of_nat ?S +
         of_nat (length (filter (\<lambda>k. k = AmbiguousPage) ?ks)) / of_nat ?S :: rat) =
        of_nat (length (filter (\<lambda>k. k = ImagePage) ?ks) + length (filter (\<lambda>k. k = TextPage) ?ks) +
          length (filter (\<lambda>k. k = AmbiguousPage) ?ks)) / of_nat ?S"
    by (simp add: add_divide_distrib)
  also have "\<dots> = 1"
    unfolding sum using sample_size_pos [of ?P] by simp
  finally have exact: "(of_nat (length (filter (\<lambda>k. k = ImagePage) ?ks)) / of_nat ?S +
         of_nat (length (filter (\<lambda>k. k = TextPage) ?ks)) / of_nat ?S +
         of_nat (length (filter (\<lambda>k. k = AmbiguousPage) ?ks)) / of_nat ?S :: rat) = 1" .
  have rest: "\<exists>image_pages text_pages ambiguous_pages.
            image_pages = length (filter (\<lambda>k. k = ImagePage) ?ks) \<and>
            text_pages = length (filter (\<lambda>k. k = TextPage) ?ks) \<and>
            ambiguous_pages = length (filter (\<lambda>k. k = AmbiguousPage) ?ks) \<and>
            image_pages + text_pages + ambiguous_pages = ?S \<and>
            page_ratios doc =
              Inr (fdiv (of_nat image_pages) (of_nat ?S),
                   fdiv (of_nat text_pages) (of_nat ?S),
                   fdiv (of_nat ambiguous_pages) (of_nat ?S)) \<and>
            (of_nat image_pages / of_nat ?S + of_nat text_pages / of_nat ?S +
             of_nat ambiguous_pages / of_nat ?S = (1 :: rat))"
    using sum ratios exact by blast
  have "?S = min 10 (max 1 (?P div 20))"
    by (simp add: sample_size_def)
  with range sample_indices_distinct [OF P] sample_indices_length [of ?P] rest
  show ?thesis
    by blast
qed


theorem sampled_pages_partition_witness:
  "report_pdf \<noteq> [] \<and>
   list_all (\<lambda>idx. \<not> isl (report_pdf ! idx)) (sample_indices (length report_pdf)) \<and>
   sample_indices (length report_pdf) = [0, 20, 40, 60, 80, 100] \<and>
   distinct (sample_indices (length report_pdf)) \<and>
   list_all (\<lambda>idx. idx < length report_pdf) (sample_indices (length report_pdf)) \<and>
   page_ratios report_pdf = Inr (fdiv 1 6, fdiv 4 6, fdiv 1 6)"
proof -
  have h1: "report_pdf \<noteq> []"
    by (simp add: report_pdf_def)
  have h2: "\<forall>idx \<in> set (sample_indices (length report_pdf)). \<not> isl (report_pdf ! idx)"
    unfolding report_pdf_indices by (simp add: report_pdf_pages)
  have k: "sampled_kinds report_pdf (sample_indices (length report_pdf)) =
      [ImagePage, AmbiguousPage, TextPage, TextPage, TextPage, TextPage]"
    unfolding report_pdf_indices
    by (simp add: sampled_kinds_def report_pdf_pages classify_scan_page classify_text_page
        classify_blank_page)
  have s: "sample_size (length report_pdf) = 6"
    by (simp add: report_pdf_def sample_size_def)
  have "page_ratios report_pdf = Inr (fdiv 1 6, fdiv 4 6, fdiv 1 6)"
    using sampled_pages_partition [OF h1 h2] unfolding k s by simp
  then show ?thesis
    using h1 h2 sampled_pages_partition [OF h1 h2] report_pdf_indices
    by (simp add: list_all_iff)
qed

section \<open>Texts without footnotes\<close>

text \<open>
  Extraction and stripping are total functions: no input makes them raise. What
  stripping does to a text in which no footnote was found is the subject of C5.
\<close>

lemma sub_run_spaces_id:
  "(SP, SP) \<notin> set (zip s (tl s)) \<Longrightarrow> sub_run (\<lambda>c. c = SP) 1 [SP] s = s"
proof (induction s)
  case Nil
  then show ?case by simp
next
  case (Cons c cs)
  have rest: "(SP, SP) \<notin> set (zip cs (tl cs))"
    using Cons.prems by (cases cs) auto
  show ?case
  proof (cases "c = SP")
    case True
    then have "dropWhile (\<lambda>c. c = SP) cs = cs"
      using Cons.prems by (cases cs) auto
    with True Cons.IH [OF rest] show ?thesis by simp
  next
    case False
    with Cons.IH [OF rest] show ?thesis by simp
  qed
qed

lemma zip3_Cons:
  "zip (c # x # y # ys) (zip (tl (c # x # y # ys)) (tl (tl (c # x # y # ys)))) =
     (c, x, y) # zip (x # y # ys) (zip (tl (x # y # ys)) (tl (tl (x # y # ys))))"
  by simp

lemma sub_run_newlines_id:
  "(LF, LF, LF) \<notin> set (zip s (zip (tl s) (tl (tl s)))) \<Longrightarrow>
   sub_run (\<lambda>c. c = LF) 3 [LF, LF] s = s"
proof (induction s)
  case Nil
  then show ?case by simp
next
  case (Cons c cs)
  show ?case
  proof (cases cs)
    case Nil
    then show ?thesis by simp
  next
    case cs: (Cons x xs)
    show ?thesis
    proof (cases xs)
      case Nil
      with cs show ?thesis by simp
    next
      case xs: (Cons y ys)
      have z: "zip (c # cs) (zip (tl (c # cs)) (tl (tl (c # cs)))) =
                 (c, x, y) # zip cs (zip (tl cs) (tl (tl cs)))"
        unfolding cs xs by (rule zip3_Cons)
      have rest: "(LF, LF, LF) \<notin> set (zip cs (zip (tl cs) (tl (tl cs))))"
        using Cons.prems unfolding z by simp
      have "\<not> (c = LF \<and> x = LF \<and> y = LF)"
        using Cons.prems unfolding z by simp
      then have "\<not> (c = LF \<and> 3 \<le> Suc (length (takeWhile (\<lambda>c. c = LF) cs)))"
        unfolding cs xs by auto
      then have "sub_run (\<lambda>c. c = LF) 3 [LF, LF] (c # cs) = c # sub_run (\<lambda>c. c = LF) 3 [LF, LF] cs"
        by (simp only: sub_run.simps if_False)
      with Cons.IH [OF rest] show ?thesis by simp
    qed
  qed
qed

lemma strip_id:
  assumes "s \<noteq> [] \<longrightarrow> \<not> is_space (hd s) \<and> \<not> is_space (last s)"
  shows "strip s = s"
proof (cases "s = []")
  case True
  then show ?thesis by (simp add: strip_def)
next
  case False
  with assms have h: "\<not> is_space (hd s)" and l: "\<not> is_space (last s)"
    by auto
  have "dropWhile is_space s = s"
    using h by (simp add: dropWhile_eq_self_iff)
  moreover have "dropWhile is_space (rev s) = rev s"
    using l False by (simp add: dropWhile_eq_self_iff hd_rev)
  ultimately show ?thesis by (simp add: strip_def)
qed

text \<open>A text with two spaces in a row, and a text that needs no cleaning.\<close>

definition double_space :: ustring where
  "double_space = ustr ''a  b''"

definition plain_text :: ustring where
  "plain_text = ustr ''See (1) here.''"

text \<open>
  C5, as stated, fails: on a text without any footnote line, stripping still collapses
  the run of spaces, so the text does not come back unmodified.
\<close>

theorem no_footnotes_still_cleaned:
  "footnote_matches True double_space = [] \<and>
   extract_footnotes double_space = [] \<and>
   remove_footnote_content_from_main double_space (extract_footnotes double_space) = ustr ''a b'' \<and>
   remove_footnote_content_from_main double_space (extract_footnotes double_space) \<noteq> double_space"
  by (simp add: double_space_def word_defs char_defs)

text \<open>
  C5, amended. When the footnote pattern matches nowhere in the text, extraction returns
  the empty map, and stripping deletes nothing: it returns the text with its runs of
  three or more newlines collapsed to two, its runs of spaces collapsed to one, and its
  ends trimmed. The text comes back unmodified when it has no such run and neither
  starts nor ends with whitespace.
\<close>

theorem no_footnotes_graceful:
  assumes "footnote_matches True text = []"
  shows "extract_footnotes text = [] \<and>
         remove_footnote_content_from_main text (extract_footnotes text) =
           strip (sub_run (\<lambda>c. c = SP) 1 [SP] (sub_run (\<lambda>c. c = LF) 3 [LF, LF] text)) \<and>
         ((LF, LF, LF) \<notin> set (zip text (zip (tl text) (tl (tl text)))) \<and>
          (SP, SP) \<notin> set (zip text (tl text)) \<and>
          (text \<noteq> [] \<longrightarrow> \<not> is_space (hd text) \<and> \<not> is_space (last text)) \<longrightarrow>
          remove_footnote_content_from_main text (extract_footnotes text) = text)"
proof -
  have e: "extract_footnotes text = []"
    using assms by (simp add: extract_footnotes_def)
  have r: "remove_footnote_content_from_main text [] =
           strip (sub_run (\<lambda>c. c = SP) 1 [SP] (sub_run (\<lambda>c. c = LF) 3 [LF, LF] text))"
    by (simp add: remove_footnote_content_from_main_def)
  have "remove_footnote_content_from_main text [] = text"
    if "(LF, LF, LF) \<notin> set (zip text (zip (tl text) (tl (tl text))))"
      and "(SP, SP) \<notin> set (zip text (tl text))"
      and "text \<noteq> [] \<longrightarrow> \<not> is_space (hd text) \<and> \<not> is_space (last text)"
    unfolding r sub_run_newlines_id [OF that(1)] sub_run_spaces_id [OF that(2)]
    by (rule strip_id [OF that(3)])
  with e r show ?thesis
    by simp
qed

theorem no_footnotes_graceful_witness:
  "footnote_matches True plain_text = [] \<and>
   (LF, LF, LF) \<notin> set (zip plain_text (zip (tl plain_text) (tl (tl plain_text)))) \<and>
   (SP, SP) \<notin> set (zip plain_text (tl plain_text)) \<and>
   plain_text \<noteq> [] \<and> \<not> is_space (hd plain_text) \<and> \<not> is_space (last plain_text) \<and>
   extract_footnotes plain_text = [] \<and>
   remove_footnote_content_from_main plain_text (extract_footnotes plain_text) = plain_text"
proof -
  have h: "footnote_matches True plain_text = []"
    by (simp add: plain_text_def word_defs char_defs)
  have t: "(LF, LF, LF) \<notin> set (zip plain_text (zip (tl plain_text) (tl (tl plain_text)))) \<and>
   (SP, SP) \<notin> set (zip plain_text (tl plain_text)) \<and>
   plain_text \<noteq> [] \<and> \<not> is_space (hd plain_text) \<and> \<not> is_space (last plain_text)"
    by (simp add: plain_text_def char_defs)
  show ?thesis
    using h t no_footnotes_graceful [OF h] by blast
qed

section \<open>Footnote lines\<close>

text \<open>
  The footnote line as the specification words it (section 4.3, Extraction): at a line
  start, optional whitespace, an opening parenthesis, one or more digits, a closing
  parenthesis, whitespace, then the remainder of the line, which is not empty.
  \<open>footnote_line_at\<close> says that the text begins with such a line, \<open>has_footnote_line\<close>
  that one begins at the start of the text or after a newline.
\<close>

definition footnote_line_at :: "ustring \<Rightarrow> bool" where
  "footnote_line_at suf \<longleftrightarrow>
     (\<exists>ws ds ws' c rest.
        suf = ws @ [LPAR] @ ds @ [RPAR] @ ws' @ c # rest \<and>
        (\<forall>x \<in> set ws. is_space x) \<and> ds \<noteq> [] \<and> (\<forall>x \<in> set ds. is_digit x) \<and>
        (\<forall>x \<in> set ws'. is_space x) \<and> c \<noteq> LF)"

definition has_footnote_line :: "ustring \<Rightarrow> bool" where
  "has_footnote_line s \<longleftrightarrow>
     (\<exists>pre suf. s = pre @ suf \<and> (pre = [] \<or> last pre = LF) \<and> footnote_line_at suf)"

lemma lpar_not_space: "\<not> is_space LPAR"
  by (simp add: is_space_def)

lemma rpar_not_digit: "\<not> is_digit RPAR"
  by (simp add: is_digit_def decimal_zeros_def)

lemma dot_plus_eol_Cons: "dot_plus_eol (c # cs) \<noteq> None \<longleftrightarrow> c \<noteq> LF"
  by (simp add: dot_plus_eol_def Let_def)

lemma body_match_complete:
  assumes "\<forall>x \<in> set ws. is_space x" and "c \<noteq> LF"
  shows "body_match (ws @ c # rest) \<noteq> None"
  using assms
proof (induction ws)
  case Nil
  then show ?case
    using dot_plus_eol_Cons [of c rest] by (auto split: option.splits)
next
  case (Cons w ws)
  then show ?case by (auto split: option.splits)
qed

lemma body_match_sound:
  assumes "body_match s \<noteq> None"
  shows "\<exists>ws c rest. s = ws @ c # rest \<and> (\<forall>x \<in> set ws. is_space x) \<and> c \<noteq> LF"
  using assms
proof (induction s)
  case Nil
  then show ?case by simp
next
  case (Cons a s)
  show ?case
  proof (cases "is_space a \<and> body_match s \<noteq> None")
    case True
    then obtain ws c rest where "s = ws @ c # rest" "\<forall>x \<in> set ws. is_space x" "c \<noteq> LF"
      using Cons.IH by blast
    with True have "a # s = (a # ws) @ c # rest \<and> (\<forall>x \<in> set (a # ws). is_space x) \<and> c \<noteq> LF"
      by simp
    then show ?thesis by blast
  next
    case False
    with Cons.prems have "dot_plus_eol (a # s) \<noteq> None"
      by (auto split: if_splits option.splits)
    then have "a \<noteq> LF"
      using dot_plus_eol_Cons by blast
    then have "a # s = [] @ a # s \<and> (\<forall>x \<in> set []. is_space x) \<and> a \<noteq> LF"
      by simp
    then show ?thesis by blast
  qed
qed

lemma match_footnote_sound:
  assumes "match_footnote s \<noteq> None"
  shows "footnote_line_at s"
proof -
  from assms obtain s2 s4 where s2: "dropWhile is_space s = LPAR # s2"
    and ds: "takeWhile is_digit s2 \<noteq> []"
    and s4: "dropWhile is_digit s2 = RPAR # s4" and bm: "body_match s4 \<noteq> None"
    by (auto simp: match_footnote_def Let_def split: list.splits if_splits option.splits)
  obtain ws' c rest where b: "s4 = ws' @ c # rest" "\<forall>x \<in> set ws'. is_space x" "c \<noteq> LF"
    using body_match_sound [OF bm] by blast
  have "s = takeWhile is_space s @ dropWhile is_space s"
    by simp
  also have "dropWhile is_space s = LPAR # takeWhile is_digit s2 @ dropWhile is_digit s2"
    by (simp add: s2)
  finally have "s = takeWhile is_space s @ [LPAR] @ takeWhile is_digit s2 @ [RPAR] @ ws' @ c # rest"
    by (simp add: s4 b)
  moreover have "\<forall>x \<in> set (takeWhile is_space s). is_space x"
    by (auto dest: set_takeWhileD)
  moreover have "\<forall>x \<in> set (takeWhile is_digit s2). is_digit x"
    by (auto dest: set_takeWhileD)
  ultimately show ?thesis
    unfolding footnote_line_at_def using ds b by blast
qed

lemma match_footnote_complete:
  assumes "footnote_line_at s"
  shows "match_footnote s \<noteq> None"
proof -
  from assms obtain ws ds ws' c rest where s: "s = ws @ [LPAR] @ ds @ [RPAR] @ ws' @ c # rest"
    and ws: "\<forall>x \<in> set ws. is_space x" and ds: "ds \<noteq> []" "\<forall>x \<in> set ds. is_digit x"
    and ws': "\<forall>x \<in> set ws'. is_space x" and c: "c \<noteq> LF"
    unfolding footnote_line_at_def by blast
  have 1: "dropWhile is_space s = LPAR # ds @ RPAR # ws' @ c # rest"
    using ws lpar_not_space by (simp add: s dropWhile_append2)
  have 2: "takeWhile is_digit (ds @ RPAR # ws' @ c # rest) = ds"
    using ds rpar_not_digit by (simp add: takeWhile_append2)
  have 3: "dropWhile is_digit (ds @ RPAR # ws' @ c # rest) = RPAR # ws' @ c # rest"
    using ds rpar_not_digit by (simp add: dropWhile_append2)
  have 4: "body_match (ws' @ c # rest) \<noteq> None"
    using ws' c by (rule body_match_complete)
  show ?thesis
    using ds(1) 4 by (auto simp: match_footnote_def 1 2 3 Let_def split: option.splits)
qed

lemma match_footnote_iff: "match_footnote s \<noteq> None \<longleftrightarrow> footnote_line_at s"
  using match_footnote_sound match_footnote_complete by blast

lemma match_footnote_Nil: "match_footnote [] = None"
  by (simp add: match_footnote_def)

lemma footnote_matches_iff:
  "footnote_matches bol s \<noteq> [] \<longleftrightarrow>
     (\<exists>pre suf. s = pre @ suf \<and> (if pre = [] then bol else last pre = LF) \<and>
        match_footnote suf \<noteq> None)"
proof (induction s arbitrary: bol)
  case Nil
  then show ?case by (simp add: match_footnote_Nil)
next
  case (Cons c cs)
  have l: "footnote_matches bol (c # cs) \<noteq> [] \<longleftrightarrow>
           (bol \<and> match_footnote (c # cs) \<noteq> None) \<or> footnote_matches (c = LF) cs \<noteq> []"
    by (auto split: option.splits)
  have r: "(\<exists>pre suf. c # cs = pre @ suf \<and> (if pre = [] then bol else last pre = LF) \<and>
              match_footnote suf \<noteq> None) \<longleftrightarrow>
           (bol \<and> match_footnote (c # cs) \<noteq> None) \<or>
           (\<exists>pre suf. cs = pre @ suf \<and> (if pre = [] then c = LF else last pre = LF) \<and>
              match_footnote suf \<noteq> None)"
    (is "?L \<longleftrightarrow> ?A \<or> ?B")
  proof
    assume ?L
    then obtain pre suf where p: "c # cs = pre @ suf"
      "if pre = [] then bol else last pre = LF" "match_footnote suf \<noteq> None"
      by blast
    show "?A \<or> ?B"
    proof (cases pre)
      case Nil
      with p show ?thesis by simp
    next
      case (Cons a pre')
      with p have "cs = pre' @ suf \<and> (if pre' = [] then c = LF else last pre' = LF) \<and>
          match_footnote suf \<noteq> None"
        by (auto split: if_splits)
      then show ?thesis by blast
    qed
  next
    assume "?A \<or> ?B"
    then show ?L
    proof
      assume ?A
      then have "c # cs = [] @ (c # cs) \<and> (if [] = ([] :: ustring) then bol else last [] = LF) \<and>
          match_footnote (c # cs) \<noteq> None"
        by simp
      then show ?L by blast
    next
      assume ?B
      then obtain pre suf where "cs = pre @ suf"
        "if pre = [] then c = LF else last pre = LF" "match_footnote suf \<noteq> None"
        by blast
      then have "c # cs = (c # pre) @ suf \<and>
          (if c # pre = [] then bol else last (c # pre) = LF) \<and> match_footnote suf \<noteq> None"
        by (auto split: if_splits)
      then show ?L by blast
    qed
  qed
  show ?case
    unfolding l r Cons.IH ..
qed

lemma dict_set_not_Nil: "dict_set k v d \<noteq> []"
  by (cases d) (auto split: if_splits)

lemma foldl_dict_set_not_Nil:
  "d \<noteq> [] \<Longrightarrow> foldl (\<lambda>footnotes (num, body). dict_set num (f body) footnotes) d ms \<noteq> []"
proof (induction ms arbitrary: d)
  case Nil
  then show ?case by simp
next
  case (Cons m ms)
  obtain num body where m: "m = (num, body)"
    by (cases m) auto
  have "dict_set num (f body) d \<noteq> []"
    by (rule dict_set_not_Nil)
  from Cons.IH [OF this] show ?case
    by (simp add: m)
qed

lemma extract_footnotes_empty_iff: "extract_footnotes s = [] \<longleftrightarrow> footnote_matches True s = []"
proof (cases "footnote_matches True s")
  case Nil
  then show ?thesis by (simp add: extract_footnotes_def)
next
  case (Cons m ms)
  obtain num body where m: "m = (num, body)"
    by (cases m) auto
  have "extract_footnotes s =
        foldl (\<lambda>footnotes (num, body). dict_set num (strip body) footnotes)
          (dict_set num (strip body) []) ms"
    by (simp add: extract_footnotes_def Cons m)
  moreover have "\<dots> \<noteq> []"
    by (rule foldl_dict_set_not_Nil) (rule dict_set_not_Nil)
  ultimately show ?thesis
    using Cons by simp
qed

lemma footnote_matches_True_iff:
  "footnote_matches True s \<noteq> [] \<longleftrightarrow>
     (\<exists>pre suf. s = pre @ suf \<and> (pre = [] \<or> last pre = LF) \<and> match_footnote suf \<noteq> None)"
proof -
  have "\<And>pre :: ustring. (if pre = [] then True else last pre = LF) \<longleftrightarrow> (pre = [] \<or> last pre = LF)"
    by simp
  then show ?thesis
    unfolding footnote_matches_iff by simp
qed

lemma extract_footnotes_characterised:
  "extract_footnotes s = [] \<longleftrightarrow> \<not> has_footnote_line s"
  unfolding extract_footnotes_empty_iff has_footnote_line_def match_footnote_iff [symmetric]
  using footnote_matches_True_iff [of s] by blast

text \<open>
  Digits, whitespace and the two parentheses are pairwise disjoint classes of characters.
\<close>

lemma digit_ge: "is_digit x \<Longrightarrow> 48 \<le> x"
  by (auto simp: is_digit_def decimal_zeros_def)

lemma digit_not_space: "is_digit x \<Longrightarrow> \<not> is_space x"
proof
  assume d: "is_digit x" and s: "is_space x"
  from d have "48 \<le> x"
    by (rule digit_ge)
  with s have "x = 0x85 \<or> x = 0xA0 \<or> x = 0x1680 \<or> (0x2000 \<le> x \<and> x \<le> 0x205F) \<or> x = 0x3000"
    by (auto simp: is_space_def)
  with d show False
    by (auto simp: is_digit_def decimal_zeros_def)
qed

lemma lpar_not_digit: "\<not> is_digit LPAR"
  by (simp add: is_digit_def decimal_zeros_def)

lemma rpar_not_space: "\<not> is_space RPAR"
  by (simp add: is_space_def)

text \<open>
  How the footnote pattern matches on a text that has been split: leading whitespace is
  skipped; a match that begins before an opening parenthesis and reaches beyond it has
  found its number and the start of its body before the parenthesis; and when no match
  begins before a footnote line, the scan reports that line first.
\<close>

lemma takeWhile_stop: "\<not> P c \<Longrightarrow> takeWhile P (a @ c # b) = takeWhile P a"
  by (induction a) auto

lemma dropWhile_stop: "\<not> P c \<Longrightarrow> dropWhile P (a @ c # b) = dropWhile P a @ c # b"
  by (induction a) auto

lemma body_match_iff: "body_match s \<noteq> None \<longleftrightarrow> (\<exists>x \<in> set s. x \<noteq> LF)"
proof
  assume "body_match s \<noteq> None"
  then obtain ws c rest where "s = ws @ c # rest" "c \<noteq> LF"
    using body_match_sound by blast
  then show "\<exists>x \<in> set s. x \<noteq> LF"
    by auto
next
  assume "\<exists>x \<in> set s. x \<noteq> LF"
  then show "body_match s \<noteq> None"
  proof (induction s)
    case Nil
    then show ?case by simp
  next
    case (Cons a s)
    show ?case
    proof (cases "a = LF")
      case True
      with Cons.prems have "\<exists>x \<in> set s. x \<noteq> LF"
        by simp
      then have "body_match s \<noteq> None"
        by (rule Cons.IH)
      moreover have "is_space a"
        using True by (simp add: is_space_def)
      ultimately show ?thesis
        by (auto split: option.splits)
    next
      case False
      then show ?thesis
        using dot_plus_eol_Cons [of a s] by (auto split: option.splits)
    qed
  qed
qed

lemma match_footnote_skip:
  assumes "\<forall>x \<in> set w. is_space x"
  shows "match_footnote (w @ s) = match_footnote s"
proof -
  have "dropWhile is_space (w @ s) = dropWhile is_space s"
    using assms by (simp add: dropWhile_append2)
  then show ?thesis
    by (simp add: match_footnote_def)
qed

lemma match_footnote_prefix:
  assumes ns: "\<not> (\<forall>x \<in> set s. is_space x)"
    and m: "match_footnote (s @ LPAR # t) \<noteq> None"
  shows "match_footnote (s @ [LPAR]) \<noteq> None"
proof -
  have d: "dropWhile is_space (s @ y) = dropWhile is_space s @ y" for y
    using ns by (auto simp: dropWhile_append1)
  have "dropWhile is_space s \<noteq> []"
    using ns by auto
  then obtain c s2 where s1: "dropWhile is_space s = c # s2"
    by (cases "dropWhile is_space s") auto
  from m have c: "c = LPAR"
    by (auto simp: match_footnote_def d s1 Let_def split: if_splits)
  from m have ds: "takeWhile is_digit (s2 @ LPAR # t) \<noteq> []"
    by (auto simp: match_footnote_def d s1 c Let_def split: if_splits)
  from m obtain s4' where s4': "dropWhile is_digit (s2 @ LPAR # t) = RPAR # s4'"
    and bm: "body_match s4' \<noteq> None"
    by (auto simp: match_footnote_def d s1 c Let_def split: if_splits list.splits option.splits)
  have t: "takeWhile is_digit (s2 @ LPAR # t) = takeWhile is_digit s2"
    using lpar_not_digit by (rule takeWhile_stop)
  have dd: "dropWhile is_digit (s2 @ LPAR # u) = dropWhile is_digit s2 @ LPAR # u" for u
    using lpar_not_digit by (rule dropWhile_stop)
  have "dropWhile is_digit s2 \<noteq> []"
  proof
    assume "dropWhile is_digit s2 = []"
    with s4' show False
      unfolding dd by simp
  qed
  then obtain d s4 where s4: "dropWhile is_digit s2 = d # s4"
    by (cases "dropWhile is_digit s2") auto
  have dr: "d = RPAR"
    using s4' unfolding dd s4 by simp
  have b: "body_match (s4 @ [LPAR]) \<noteq> None"
    unfolding body_match_iff by simp
  have "dropWhile is_space (s @ [LPAR]) = LPAR # s2 @ [LPAR]"
    by (simp add: d s1 c)
  moreover have "takeWhile is_digit (s2 @ [LPAR]) = takeWhile is_digit s2"
    using lpar_not_digit by (rule takeWhile_stop)
  moreover have "dropWhile is_digit (s2 @ [LPAR]) = RPAR # s4 @ [LPAR]"
    by (simp add: dd s4 dr)
  ultimately show ?thesis
    using ds b unfolding t
    by (auto simp: match_footnote_def Let_def split: option.splits)
qed

lemma footnote_matches_Cons:
  "footnote_matches bol (c # cs) \<noteq> [] \<longleftrightarrow>
     (bol \<and> match_footnote (c # cs) \<noteq> None) \<or> footnote_matches (c = LF) cs \<noteq> []"
  by (auto split: option.splits)

lemma footnote_matches_bol:
  "footnote_matches bol s \<noteq> [] \<longleftrightarrow>
     (bol \<and> match_footnote s \<noteq> None) \<or> footnote_matches False s \<noteq> []"
proof (cases s)
  case Nil
  then show ?thesis by (simp add: match_footnote_Nil)
next
  case (Cons c cs)
  show ?thesis
    unfolding Cons footnote_matches_Cons [of bol] footnote_matches_Cons [of False] by simp
qed

lemma footnote_matches_line:
  assumes "footnote_matches bol (pre @ [LPAR]) = []"
    and "pre = [] \<longrightarrow> bol" and "pre \<noteq> [] \<longrightarrow> last pre = LF"
    and "match_footnote (LPAR # t) = Some (n, b, r)"
  shows "footnote_matches bol (pre @ LPAR # t) = (n, b) # footnote_matches False r"
  using assms(1-3)
proof (induction pre arbitrary: bol)
  case Nil
  then show ?case
    using assms(4) by simp
next
  case (Cons c pre)
  have none: "\<not> (bol \<and> match_footnote ((c # pre) @ [LPAR]) \<noteq> None)"
    and rest: "footnote_matches (c = LF) (pre @ [LPAR]) = []"
    using Cons.prems(1) footnote_matches_Cons [of bol c "pre @ [LPAR]"] by auto
  have ih: "footnote_matches (c = LF) (pre @ LPAR # t) = (n, b) # footnote_matches False r"
    using rest Cons.prems(3) by (intro Cons.IH) (auto split: if_splits)
  show ?case
  proof (cases "bol \<and> (\<forall>x \<in> set (c # pre). is_space x)")
    case True
    then have "match_footnote ((c # pre) @ LPAR # t) = Some (n, b, r)"
      using match_footnote_skip [of "c # pre" "LPAR # t"] assms(4) by simp
    with True show ?thesis by simp
  next
    case False
    have "\<not> (bol \<and> match_footnote ((c # pre) @ LPAR # t) \<noteq> None)"
      using False none match_footnote_prefix [of "c # pre" t] by blast
    then have "footnote_matches bol ((c # pre) @ LPAR # t) =
               footnote_matches (c = LF) (pre @ LPAR # t)"
      by (auto split: option.splits)
    with ih show ?thesis by simp
  qed
qed

lemma lf_space: "is_space LF"
  by (simp add: is_space_def)

lemma takeWhile_all: "\<forall>x \<in> set a. P x \<Longrightarrow> takeWhile P (a @ b) = a @ takeWhile P b"
  by (induction a) auto

lemma dropWhile_all: "\<forall>x \<in> set a. P x \<Longrightarrow> dropWhile P (a @ b) = dropWhile P b"
  by (induction a) auto

lemma body_match_skip:
  assumes "\<forall>x \<in> set ws. is_space x" and "\<not> is_space c"
  shows "body_match (ws @ c # t) = dot_plus_eol (c # t)"
  using assms(1)
proof (induction ws)
  case Nil
  with assms(2) show ?case by simp
next
  case (Cons w ws)
  have "c \<noteq> LF"
    using assms(2) lf_space by auto
  then obtain res where "dot_plus_eol (c # t) = Some res"
    using dot_plus_eol_Cons [of c t] by auto
  with Cons show ?case
    by (auto split: option.splits)
qed

lemma match_footnote_marker:
  assumes ds: "ds \<noteq> []" "\<forall>x \<in> set ds. is_digit x" and ws: "\<forall>x \<in> set ws. is_space x"
    and body: "body \<noteq> []" "\<not> is_space (hd body)" "LF \<notin> set body"
  shows "match_footnote (LPAR # ds @ RPAR # ws @ body @ post) =
         Some (ds, body @ takeWhile (\<lambda>c. c \<noteq> LF) post, dropWhile (\<lambda>c. c \<noteq> LF) post)"
proof -
  obtain c cs where b: "body = c # cs"
    using body(1) by (cases body) auto
  have c: "\<not> is_space c"
    using body(2) b by simp
  have 1: "dropWhile is_space (LPAR # ds @ RPAR # ws @ body @ post) =
           LPAR # ds @ RPAR # ws @ body @ post"
    using lpar_not_space by simp
  have 2: "takeWhile is_digit (ds @ RPAR # ws @ body @ post) = ds"
    using rpar_not_digit by (simp add: takeWhile_all [OF ds(2)])
  have 3: "dropWhile is_digit (ds @ RPAR # ws @ body @ post) = RPAR # ws @ body @ post"
    using rpar_not_digit by (simp add: dropWhile_all [OF ds(2)])
  have "body_match (ws @ c # cs @ post) = dot_plus_eol (c # cs @ post)"
    using ws c by (rule body_match_skip)
  then have 4: "body_match (ws @ body @ post) = dot_plus_eol (body @ post)"
    by (simp add: b)
  have nl: "\<forall>x \<in> set body. x \<noteq> LF"
    using body(3) by auto
  have t: "takeWhile (\<lambda>c. c \<noteq> LF) (body @ post) = body @ takeWhile (\<lambda>c. c \<noteq> LF) post"
    using nl by (rule takeWhile_all)
  have d: "dropWhile (\<lambda>c. c \<noteq> LF) (body @ post) = dropWhile (\<lambda>c. c \<noteq> LF) post"
    using nl by (rule dropWhile_all)
  have 5: "dot_plus_eol (body @ post) =
           Some (body @ takeWhile (\<lambda>c. c \<noteq> LF) post, dropWhile (\<lambda>c. c \<noteq> LF) post)"
    using body(1) by (simp add: dot_plus_eol_def Let_def t d)
  show ?thesis
    unfolding match_footnote_def 1
    using ds(1) by (simp add: 2 3 4 5 Let_def)
qed

lemma strip_trailing:
  assumes "body \<noteq> []" "\<not> is_space (hd body)" "\<not> is_space (last body)"
    and "\<forall>x \<in> set w. is_space x"
  shows "strip (body @ w) = body"
proof -
  obtain c cs where b: "body = c # cs"
    using assms(1) by (cases body) auto
  have 1: "dropWhile is_space (body @ w) = body @ w"
    using assms(2) by (simp add: b)
  have "\<forall>x \<in> set (rev w). is_space x"
    using assms(4) by simp
  then have 2: "dropWhile is_space (rev w @ rev body) = dropWhile is_space (rev body)"
    by (rule dropWhile_all)
  have 3: "dropWhile is_space (rev body) = rev body"
    using assms(1,3) by (simp add: dropWhile_eq_self_iff hd_rev)
  show ?thesis
    by (simp add: strip_def 1 2 3)
qed

lemma no_line_iff: "\<not> has_footnote_line s \<longleftrightarrow> footnote_matches True s = []"
  using extract_footnotes_characterised [of s] extract_footnotes_empty_iff [of s] by simp


lemma extract_single:
  assumes line: "pre = [] \<or> last pre = LF"
    and ds: "ds \<noteq> []" "\<forall>x \<in> set ds. is_digit x" and ws: "\<forall>x \<in> set ws. is_space x"
    and body: "body \<noteq> []" "\<not> is_space (hd body)" "\<not> is_space (last body)" "LF \<notin> set body"
    and eol: "\<forall>x \<in> set (takeWhile (\<lambda>c. c \<noteq> LF) post). is_space x"
    and before: "\<not> has_footnote_line (pre @ [LPAR])"
    and after: "footnote_matches False (dropWhile (\<lambda>c. c \<noteq> LF) post) = []"
  shows "extract_footnotes (pre @ LPAR # ds @ RPAR # ws @ body @ post) = [(ds, body)]"
proof -
  have m: "match_footnote (LPAR # ds @ RPAR # ws @ body @ post) =
           Some (ds, body @ takeWhile (\<lambda>c. c \<noteq> LF) post, dropWhile (\<lambda>c. c \<noteq> LF) post)"
    using ds ws body(1,2,4) by (rule match_footnote_marker)
  have b: "footnote_matches True (pre @ [LPAR]) = []"
    using before by (simp add: no_line_iff)
  have "footnote_matches True (pre @ LPAR # ds @ RPAR # ws @ body @ post) =
        (ds, body @ takeWhile (\<lambda>c. c \<noteq> LF) post) #
        footnote_matches False (dropWhile (\<lambda>c. c \<noteq> LF) post)"
    using b _ _ m by (rule footnote_matches_line) (use line in auto)
  then show ?thesis
    using strip_trailing [OF body(1-3) eol] by (simp add: extract_footnotes_def after)
qed


section \<open>The substitutions on a split text\<close>

text \<open>
  Deleting the occurrences of a body, collapsing runs and trimming act separately on the
  parts of a text that are divided by a character the pattern cannot match.
\<close>

lemma remove_all_Nil: "remove_all [] s = s"
  by (cases s) simp_all

lemma remove_all_split:
  assumes "c \<notin> set pat"
  shows "remove_all pat (a @ c # b) = remove_all pat a @ c # remove_all pat b"
proof (cases "pat = []")
  case True
  then show ?thesis by (simp add: remove_all_Nil)
next
  case ne: False
  have front: "take (length pat) (c # b) \<noteq> pat"
  proof
    assume "take (length pat) (c # b) = pat"
    then have "hd pat = c"
      using ne by (cases pat) auto
    with ne assms show False
      by (cases pat) auto
  qed
  show ?thesis
  proof (induction a rule: length_induct)
    case (1 a)
    show ?case
    proof (cases a)
      case Nil
      with ne front show ?thesis by simp
    next
      case (Cons x xs)
      show ?thesis
      proof (cases "take (length pat) (a @ c # b) = pat")
        case True
        have le: "length pat \<le> length a"
        proof (rule ccontr)
          assume "\<not> length pat \<le> length a"
          then have "c \<in> set (take (length pat) (a @ c # b))"
            by (auto simp: take_Cons' in_set_conv_nth nth_append intro!: exI [of _ "length a"])
          with True assms show False by simp
        qed
        then have t: "take (length pat) a = pat"
          using True by simp
        have d: "drop (length pat) (a @ c # b) = drop (length pat) a @ c # b"
          using le by simp
        have "length (drop (length pat) a) < length a"
          using ne Cons by simp
        then have "remove_all pat (drop (length pat) a @ c # b) =
                   remove_all pat (drop (length pat) a) @ c # remove_all pat b"
          using 1 by blast
        moreover have "remove_all pat (a @ c # b) = remove_all pat (drop (length pat) (a @ c # b))"
          using True ne unfolding Cons by simp
        moreover have "remove_all pat a = remove_all pat (drop (length pat) a)"
          using t ne unfolding Cons by simp
        ultimately show ?thesis
          unfolding d by simp
      next
        case False
        have nt: "take (length pat) a \<noteq> pat"
        proof
          assume e: "take (length pat) a = pat"
          then have "length (take (length pat) a) = length pat"
            by simp
          then have "length pat \<le> length a"
            by simp
          with e have "take (length pat) (a @ c # b) = pat"
            by simp
          with False show False by simp
        qed
        have "remove_all pat (xs @ c # b) = remove_all pat xs @ c # remove_all pat b"
          using 1 Cons by simp
        moreover have "remove_all pat (a @ c # b) = x # remove_all pat (xs @ c # b)"
          using False ne unfolding Cons by simp
        moreover have "remove_all pat a = x # remove_all pat xs"
          using nt ne unfolding Cons by simp
        ultimately show ?thesis by simp
      qed
    qed
  qed
qed

lemma remove_all_skip:
  assumes "pat \<noteq> []" and "hd pat \<notin> set a"
  shows "remove_all pat (a @ b) = a @ remove_all pat b"
  using assms(2)
proof (induction a)
  case Nil
  then show ?case by simp
next
  case (Cons x xs)
  have "take (length pat) (x # xs @ b) \<noteq> pat"
  proof
    assume "take (length pat) (x # xs @ b) = pat"
    then have "hd pat = x"
      using assms(1) by (cases pat) auto
    with Cons.prems show False by simp
  qed
  with Cons assms(1) show ?case by simp
qed

lemma remove_all_occurrence:
  assumes "pat \<noteq> []"
  shows "remove_all pat (pat @ b) = remove_all pat b"
  using assms by (cases pat) simp_all

lemma sub_run_split:
  assumes "\<not> p c"
  shows "sub_run p k r (a @ c # b) = sub_run p k r a @ c # sub_run p k r b"
proof (induction a rule: length_induct)
  case (1 a)
  show ?case
  proof (cases a)
    case Nil
    with assms show ?thesis by simp
  next
    case (Cons x xs)
    have t: "takeWhile p (xs @ c # b) = takeWhile p xs"
      using assms by (rule takeWhile_stop)
    have d: "dropWhile p (xs @ c # b) = dropWhile p xs @ c # b"
      using assms by (rule dropWhile_stop)
    have l: "length (dropWhile p xs) < length a"
      unfolding Cons using length_dropWhile_le [of p xs] by simp
    have i1: "sub_run p k r (dropWhile p xs @ c # b) =
              sub_run p k r (dropWhile p xs) @ c # sub_run p k r b"
      using 1 l by blast
    have i2: "sub_run p k r (xs @ c # b) = sub_run p k r xs @ c # sub_run p k r b"
      using 1 Cons by simp
    show ?thesis
      unfolding Cons by (simp add: t d i1 i2)
  qed
qed

lemma sub_run_skip:
  assumes "\<forall>x \<in> set a. \<not> p x"
  shows "sub_run p k r (a @ b) = a @ sub_run p k r b"
  using assms by (induction a) simp_all

lemma sub_run_set: "set (sub_run p k r s) \<subseteq> set s \<union> set r"
proof (induction s rule: length_induct)
  case (1 s)
  show ?case
  proof (cases s)
    case Nil
    then show ?thesis by simp
  next
    case (Cons x xs)
    have "length (dropWhile p xs) < length s"
      unfolding Cons using length_dropWhile_le [of p xs] by simp
    then have a: "set (sub_run p k r (dropWhile p xs)) \<subseteq> set (dropWhile p xs) \<union> set r"
      using 1 by blast
    have b: "set (sub_run p k r xs) \<subseteq> set xs \<union> set r"
      using 1 Cons by simp
    have c: "set (dropWhile p xs) \<subseteq> set xs"
      by (auto dest: set_dropWhileD)
    show ?thesis
      unfolding Cons using a b c by auto
  qed
qed

lemma strip_around:
  assumes "\<not> is_space c" and "\<not> is_space d"
  shows "strip (y @ c # m @ d # t) =
         dropWhile is_space y @ c # m @ d # rev (dropWhile is_space (rev t))"
proof -
  have 1: "dropWhile is_space (y @ c # m @ d # t) = dropWhile is_space y @ c # m @ d # t"
    using assms(1) by (rule dropWhile_stop)
  have 2: "rev (dropWhile is_space y @ c # m @ d # t) =
           rev t @ d # rev (dropWhile is_space y @ c # m)"
    by simp
  have 3: "dropWhile is_space (rev t @ d # rev (dropWhile is_space y @ c # m)) =
           dropWhile is_space (rev t) @ d # rev (dropWhile is_space y @ c # m)"
    using assms(2) by (rule dropWhile_stop)
  show ?thesis
    unfolding strip_def 1 2 3 by simp
qed


lemma remove_all_line:
  assumes "pre = [] \<or> last pre = LF" and "LF \<notin> set pat"
  shows "remove_all pat (pre @ s) = remove_all pat pre @ remove_all pat s"
proof (cases "pre = []")
  case True
  then show ?thesis by simp
next
  case False
  with assms(1) obtain p where p: "pre = p @ [LF]"
    by (metis append_butlast_last_id)
  have "remove_all pat (p @ LF # s) = remove_all pat p @ LF # remove_all pat s"
    using assms(2) by (rule remove_all_split)
  moreover have "remove_all pat (p @ LF # []) = remove_all pat p @ LF # remove_all pat []"
    using assms(2) by (rule remove_all_split)
  ultimately show ?thesis
    by (simp add: p)
qed

lemma sub_run_marker:
  assumes "\<not> p LPAR" "\<not> p RPAR" "\<forall>x \<in> set ds. \<not> p x"
  shows "sub_run p k r (a @ LPAR # ds @ RPAR # w) =
         sub_run p k r a @ LPAR # ds @ RPAR # sub_run p k r w"
proof -
  have "sub_run p k r (a @ LPAR # ds @ RPAR # w) =
        sub_run p k r a @ LPAR # sub_run p k r (ds @ RPAR # w)"
    using assms(1) by (rule sub_run_split)
  also have "sub_run p k r (ds @ RPAR # w) = ds @ sub_run p k r (RPAR # w)"
    using assms(3) by (rule sub_run_skip)
  also have "sub_run p k r (RPAR # w) = RPAR # sub_run p k r w"
    using assms(2) by simp
  finally show ?thesis by simp
qed

lemma collapse_marker:
  assumes "\<forall>x \<in> set ds. is_digit x"
  shows "sub_run (\<lambda>c. c = SP) 1 [SP] (sub_run (\<lambda>c. c = LF) 3 [LF, LF] (a @ LPAR # ds @ RPAR # w)) =
         sub_run (\<lambda>c. c = SP) 1 [SP] (sub_run (\<lambda>c. c = LF) 3 [LF, LF] a) @ LPAR # ds @ RPAR #
         sub_run (\<lambda>c. c = SP) 1 [SP] (sub_run (\<lambda>c. c = LF) 3 [LF, LF] w)"
proof -
  have d: "\<forall>x \<in> set ds. \<not> x = LF" "\<forall>x \<in> set ds. \<not> x = SP"
    using assms digit_ge by fastforce+
  show ?thesis
    by (simp add: sub_run_marker [OF _ _ d(1)] sub_run_marker [OF _ _ d(2)])
qed

lemma main_text_single:
  assumes ds: "\<forall>x \<in> set ds. is_digit x"
  shows "strip (sub_run (\<lambda>c. c = SP) 1 [SP] (sub_run (\<lambda>c. c = LF) 3 [LF, LF]
           (a @ LPAR # ds @ RPAR # w))) =
         dropWhile is_space (sub_run (\<lambda>c. c = SP) 1 [SP] (sub_run (\<lambda>c. c = LF) 3 [LF, LF] a)) @
         LPAR # ds @ RPAR #
         rev (dropWhile is_space (rev
           (sub_run (\<lambda>c. c = SP) 1 [SP] (sub_run (\<lambda>c. c = LF) 3 [LF, LF] w))))"
  unfolding collapse_marker [OF ds]
  using lpar_not_space rpar_not_space by (rule strip_around)

section \<open>The round trip\<close>









section \<open>Extraction after stripping\<close>

text \<open>
  A match of the footnote pattern in a text that has been cleaned up or trimmed comes
  from a match in the text before the clean-up: collapsing a run of newlines or spaces
  and trimming only shorten stretches of whitespace, which the pattern skips. A marker
  that ends the text, with no match beginning before it, is no footnote line.
\<close>

lemma footnote_matches_skip:
  assumes "\<forall>x \<in> set w. is_space x"
  shows "footnote_matches bol (w @ s) \<noteq> [] \<longleftrightarrow> footnote_matches (bol \<or> LF \<in> set w) s \<noteq> []"
  using assms
proof (induction w arbitrary: bol)
  case Nil
  then show ?case by simp
next
  case (Cons c w)
  have m: "match_footnote (c # w @ s) = match_footnote s"
    using match_footnote_skip [OF Cons.prems, of s] by simp
  have ih: "footnote_matches (c = LF) (w @ s) \<noteq> [] \<longleftrightarrow>
            footnote_matches (c = LF \<or> LF \<in> set w) s \<noteq> []"
    using Cons.prems by (intro Cons.IH) simp
  have "footnote_matches bol ((c # w) @ s) \<noteq> [] \<longleftrightarrow>
        (bol \<and> match_footnote s \<noteq> None) \<or> footnote_matches (c = LF \<or> LF \<in> set w) s \<noteq> []"
    using footnote_matches_Cons [of bol c "w @ s"] by (simp add: m ih)
  also have "\<dots> \<longleftrightarrow> footnote_matches (bol \<or> (c = LF \<or> LF \<in> set w)) s \<noteq> []"
    using footnote_matches_bol [of "c = LF \<or> LF \<in> set w" s]
      footnote_matches_bol [of "bol \<or> (c = LF \<or> LF \<in> set w)" s]
    by blast
  also have "(bol \<or> (c = LF \<or> LF \<in> set w)) = (bol \<or> LF \<in> set (c # w))"
    by auto
  finally show ?case .
qed

lemma footnote_matches_blank:
  assumes "\<forall>x \<in> set w. is_space x"
  shows "footnote_matches bol w = []"
  using footnote_matches_skip [OF assms, of bol "[]"] by simp

lemma sub_run_subset:
  assumes "\<forall>x \<in> set r. x = c0"
  shows "set (sub_run (\<lambda>c. c = c0) k r s) \<subseteq> set s"
proof (induction s rule: length_induct)
  case (1 s)
  show ?case
  proof (cases s)
    case Nil
    then show ?thesis by simp
  next
    case (Cons x xs)
    have "length (dropWhile (\<lambda>c. c = c0) xs) < length s"
      unfolding Cons using length_dropWhile_le [of "\<lambda>c. c = c0" xs] by simp
    then have a: "set (sub_run (\<lambda>c. c = c0) k r (dropWhile (\<lambda>c. c = c0) xs)) \<subseteq>
                  set (dropWhile (\<lambda>c. c = c0) xs)"
      using 1 by blast
    have b: "set (sub_run (\<lambda>c. c = c0) k r xs) \<subseteq> set xs"
      using 1 Cons by simp
    have c: "set (dropWhile (\<lambda>c. c = c0) xs) \<subseteq> set xs"
      by (auto dest: set_dropWhileD)
    show ?thesis
      unfolding Cons using a b c assms by auto
  qed
qed

lemma sub_run_hd:
  assumes "r \<noteq> []" "\<forall>x \<in> set r. x = c0"
  shows "\<exists>z. sub_run (\<lambda>c. c = c0) k r (c0 # s) = c0 # z"
proof -
  obtain r' where "r = c0 # r'"
    using assms by (cases r) auto
  then show ?thesis by simp
qed

lemma match_footnote_plain:
  assumes "s \<noteq> []" "\<not> is_space (hd s)" "hd s \<noteq> LPAR"
  shows "match_footnote s = None"
  using assms by (cases s) (simp_all add: match_footnote_def)

lemma match_footnote_blank:
  assumes "\<forall>x \<in> set s. is_space x"
  shows "match_footnote s = None"
  using match_footnote_skip [OF assms, of "[]"] by (simp add: match_footnote_Nil)

lemma match_footnote_sub_run:
  assumes sp: "is_space c0" and r: "r \<noteq> []" "\<forall>x \<in> set r. x = c0"
    and m: "match_footnote (sub_run (\<lambda>c. c = c0) k r s) \<noteq> None"
  shows "match_footnote s \<noteq> None"
proof -
  let ?f = "sub_run (\<lambda>c. c = c0) k r"
  define w where "w = takeWhile is_space s"
  define x where "x = dropWhile is_space s"
  have s: "s = w @ x"
    by (simp add: w_def x_def)
  have w: "\<forall>y \<in> set w. is_space y"
    unfolding w_def by (auto dest: set_takeWhileD)
  have fw: "\<forall>y \<in> set (?f u). is_space y" if "\<forall>y \<in> set u. is_space y" for u
    using sub_run_subset [OF r(2), of k u] that by auto
  show ?thesis
  proof (cases x)
    case Nil
    then have "\<forall>y \<in> set (?f s). is_space y"
      using fw [OF w] s by simp
    then have "match_footnote (?f s) = None"
      by (rule match_footnote_blank)
    with m show ?thesis by simp
  next
    case (Cons c x')
    have c: "\<not> is_space c"
      using Cons hd_dropWhile [of is_space s] unfolding x_def by force
    then have cc: "\<not> c = c0"
      using sp by auto
    have f: "?f s = ?f w @ c # ?f x'"
      unfolding s Cons using cc by (rule sub_run_split)
    have d: "dropWhile is_space (?f s) = c # ?f x'"
      unfolding f using fw [OF w] c by (simp add: dropWhile_all)
    from m have lp: "c = LPAR"
      by (auto simp: match_footnote_def d Let_def split: if_splits)
    from m have t: "takeWhile is_digit (?f x') \<noteq> []"
      by (auto simp: match_footnote_def d Let_def split: if_splits)
    from m obtain s4 where s4: "dropWhile is_digit (?f x') = RPAR # s4"
      and bm: "body_match s4 \<noteq> None"
      by (auto simp: match_footnote_def d Let_def split: if_splits list.splits option.splits)
    define ds where "ds = takeWhile is_digit x'"
    define y where "y = dropWhile is_digit x'"
    have x': "x' = ds @ y"
      by (simp add: ds_def y_def)
    have ds: "\<forall>u \<in> set ds. is_digit u"
      unfolding ds_def by (auto dest: set_takeWhileD)
    then have "\<forall>u \<in> set ds. \<not> u = c0"
      using sp digit_not_space by auto
    then have fx: "?f x' = ds @ ?f y"
      unfolding x' by (rule sub_run_skip)
    have td: "takeWhile is_digit (ds @ u) = ds @ takeWhile is_digit u"
      and dd: "dropWhile is_digit (ds @ u) = dropWhile is_digit u" for u
      using ds by (simp_all add: takeWhile_all dropWhile_all)
    show ?thesis
    proof (cases y)
      case Nil
      with s4 show ?thesis
        unfolding fx dd by simp
    next
      case y: (Cons d y')
      have nd: "\<not> is_digit d"
        using y hd_dropWhile [of is_digit x'] unfolding y_def by force
      show ?thesis
      proof (cases "d = c0")
        case True
        obtain z where "?f y = c0 # z"
          unfolding y True using sub_run_hd [OF r] by blast
        with s4 nd True have "c0 = RPAR"
          unfolding fx dd by simp
        with sp rpar_not_space show ?thesis by simp
      next
        case False
        then have fy: "?f y = d # ?f y'"
          unfolding y by simp
        from s4 nd have dr: "d = RPAR" and e: "s4 = ?f y'"
          unfolding fx dd fy by simp_all
        from t nd have ne: "ds \<noteq> []"
          unfolding fx td fy by simp
        from bm obtain u where "u \<in> set (?f y')" "u \<noteq> LF"
          unfolding e body_match_iff by blast
        then have "\<exists>u \<in> set y'. u \<noteq> LF"
          using sub_run_subset [OF r(2), of k y'] by blast
        then have b: "body_match y' \<noteq> None"
          unfolding body_match_iff .
        have 1: "dropWhile is_space s = LPAR # x'"
          using Cons lp unfolding x_def by simp
        have 2: "takeWhile is_digit x' = ds" "dropWhile is_digit x' = RPAR # y'"
          using y dr unfolding ds_def y_def by simp_all
        show ?thesis
          using ne b by (auto simp: match_footnote_def 1 2 Let_def split: option.splits)
      qed
    qed
  qed
qed

lemma footnote_matches_mono:
  "footnote_matches bol s \<noteq> [] \<Longrightarrow> (bol \<longrightarrow> bol') \<Longrightarrow> footnote_matches bol' s \<noteq> []"
  using footnote_matches_bol [of bol s] footnote_matches_bol [of bol' s] by blast

lemma footnote_matches_sub_run:
  assumes sp: "is_space c0" and r: "r \<noteq> []" "\<forall>x \<in> set r. x = c0"
  shows "footnote_matches bol (sub_run (\<lambda>c. c = c0) k r s) \<noteq> [] \<Longrightarrow>
         footnote_matches bol s \<noteq> []"
proof (induction s arbitrary: bol rule: length_induct)
  case (1 s)
  let ?f = "sub_run (\<lambda>c. c = c0) k r"
  show ?case
  proof (cases s)
    case Nil
    with 1 show ?thesis by simp
  next
    case (Cons c cs)
    show ?thesis
    proof (cases "c = c0 \<and> k \<le> Suc (length (takeWhile (\<lambda>c. c = c0) cs))")
      case True
      define run where "run = c # takeWhile (\<lambda>c. c = c0) cs"
      define rest where "rest = dropWhile (\<lambda>c. c = c0) cs"
      have s: "s = run @ rest"
        unfolding Cons run_def rest_def by simp
      have f: "?f s = r @ ?f rest"
        unfolding Cons rest_def using True by simp
      have rs: "\<forall>x \<in> set r. is_space x"
        using r(2) sp by auto
      have runs: "\<forall>x \<in> set run. is_space x"
        unfolding run_def using True sp by (auto dest: set_takeWhileD)
      have "footnote_matches (bol \<or> LF \<in> set r) (?f rest) \<noteq> []"
        using 1(2) unfolding f footnote_matches_skip [OF rs] .
      moreover have "length rest < length s"
        unfolding Cons rest_def using length_dropWhile_le [of "\<lambda>c. c = c0" cs] by simp
      ultimately have "footnote_matches (bol \<or> LF \<in> set r) rest \<noteq> []"
        using 1(1) by blast
      moreover have "(bol \<or> LF \<in> set r) \<longrightarrow> (bol \<or> LF \<in> set run)"
        unfolding run_def using r(2) True by auto
      ultimately have "footnote_matches (bol \<or> LF \<in> set run) rest \<noteq> []"
        by (rule footnote_matches_mono)
      then show ?thesis
        unfolding s footnote_matches_skip [OF runs] .
    next
      case False
      then have f: "?f s = c # ?f cs"
        unfolding Cons by auto
      from 1(2) have "(bol \<and> match_footnote (?f s) \<noteq> None) \<or>
          footnote_matches (c = LF) (?f cs) \<noteq> []"
        unfolding f footnote_matches_Cons .
      then show ?thesis
      proof
        assume "bol \<and> match_footnote (?f s) \<noteq> None"
        then have "bol \<and> match_footnote s \<noteq> None"
          using match_footnote_sub_run [OF sp r] by blast
        then show ?thesis
          unfolding Cons footnote_matches_Cons by simp
      next
        assume "footnote_matches (c = LF) (?f cs) \<noteq> []"
        then have "footnote_matches (c = LF) cs \<noteq> []"
          using 1(1) Cons by simp
        then show ?thesis
          unfolding Cons footnote_matches_Cons by simp
      qed
    qed
  qed
qed

lemma footnote_matches_collapse:
  assumes "footnote_matches bol
             (sub_run (\<lambda>c. c = SP) 1 [SP] (sub_run (\<lambda>c. c = LF) 3 [LF, LF] s)) \<noteq> []"
  shows "footnote_matches bol s \<noteq> []"
proof -
  have sp: "is_space SP"
    by (simp add: is_space_def)
  have "footnote_matches bol (sub_run (\<lambda>c. c = LF) 3 [LF, LF] s) \<noteq> []"
    using footnote_matches_sub_run [OF sp _ _ assms] by simp
  then show ?thesis
    using footnote_matches_sub_run [OF lf_space, of "[LF, LF]" bol 3 s] by simp
qed

lemma footnote_matches_lstrip:
  assumes "footnote_matches True (dropWhile is_space s) \<noteq> []"
  shows "footnote_matches True s \<noteq> []"
proof -
  have "\<forall>x \<in> set (takeWhile is_space s). is_space x"
    by (auto dest: set_takeWhileD)
  from footnote_matches_skip [OF this, of True "dropWhile is_space s"] assms
  show ?thesis by simp
qed

lemma footnote_line_at_append: "footnote_line_at s \<Longrightarrow> footnote_line_at (s @ t)"
proof -
  assume "footnote_line_at s"
  then obtain ws ds ws' c rest where s: "s = ws @ [LPAR] @ ds @ [RPAR] @ ws' @ c # rest"
    and p: "\<forall>x \<in> set ws. is_space x" "ds \<noteq> []" "\<forall>x \<in> set ds. is_digit x"
      "\<forall>x \<in> set ws'. is_space x" "c \<noteq> LF"
    unfolding footnote_line_at_def by blast
  have "s @ t = ws @ [LPAR] @ ds @ [RPAR] @ ws' @ c # (rest @ t)"
    by (simp add: s)
  with p show ?thesis
    unfolding footnote_line_at_def by blast
qed

lemma footnote_matches_append:
  assumes "footnote_matches bol s \<noteq> []"
  shows "footnote_matches bol (s @ t) \<noteq> []"
proof -
  from assms obtain pre suf where p: "s = pre @ suf" "if pre = [] then bol else last pre = LF"
    "match_footnote suf \<noteq> None"
    unfolding footnote_matches_iff by blast
  then have "match_footnote (suf @ t) \<noteq> None"
    unfolding match_footnote_iff by (simp add: footnote_line_at_append)
  with p(1,2) have "s @ t = pre @ (suf @ t) \<and> (if pre = [] then bol else last pre = LF) \<and>
      match_footnote (suf @ t) \<noteq> None"
    by simp
  then show ?thesis
    unfolding footnote_matches_iff by blast
qed

lemma footnote_matches_strip:
  assumes "footnote_matches True (strip s) \<noteq> []"
  shows "footnote_matches True s \<noteq> []"
proof -
  have "dropWhile is_space s =
        strip s @ rev (takeWhile is_space (rev (dropWhile is_space s)))"
    unfolding strip_def
    by (metis rev_append rev_rev_ident takeWhile_dropWhile_id)
  then have "footnote_matches True (dropWhile is_space s) \<noteq> []"
    using footnote_matches_append [OF assms] by metis
  then show ?thesis
    by (rule footnote_matches_lstrip)
qed

lemma match_footnote_bare_marker:
  assumes "\<forall>x \<in> set ds. is_digit x"
  shows "match_footnote (LPAR # ds @ [RPAR]) = None"
proof -
  have "takeWhile is_digit (ds @ [RPAR]) = ds" "dropWhile is_digit (ds @ [RPAR]) = [RPAR]"
    using rpar_not_digit by (simp_all add: takeWhile_all [OF assms] dropWhile_all [OF assms])
  then show ?thesis
    using lpar_not_space by (simp add: match_footnote_def Let_def)
qed

lemma no_line_in_marker:
  assumes ds: "\<forall>x \<in> set ds. is_digit x"
    and z: "footnote_matches True (z @ [LPAR]) = []"
  shows "footnote_matches True (z @ LPAR # ds @ [RPAR]) = []"
proof (rule ccontr)
  assume "footnote_matches True (z @ LPAR # ds @ [RPAR]) \<noteq> []"
  then obtain p s where ps: "z @ LPAR # ds @ [RPAR] = p @ s" "p = [] \<or> last p = LF"
    "match_footnote s \<noteq> None"
    unfolding footnote_matches_True_iff by blast
  from ps(1) obtain u where "z = p @ u \<and> u @ LPAR # ds @ [RPAR] = s \<or>
      z @ u = p \<and> LPAR # ds @ [RPAR] = u @ s"
    unfolding append_eq_append_conv2 by blast
  then show False
  proof
    assume a: "z = p @ u \<and> u @ LPAR # ds @ [RPAR] = s"
    show False
    proof (cases "\<forall>x \<in> set u. is_space x")
      case True
      then have "match_footnote s = match_footnote (LPAR # ds @ [RPAR])"
        using a match_footnote_skip by blast
      with ps(3) match_footnote_bare_marker [OF ds] show False by simp
    next
      case False
      then have "match_footnote (u @ [LPAR]) \<noteq> None"
        using ps(3) a by (intro match_footnote_prefix [of u "ds @ [RPAR]"]) auto
      with a ps(2) have "z @ [LPAR] = p @ (u @ [LPAR]) \<and> (p = [] \<or> last p = LF) \<and>
          match_footnote (u @ [LPAR]) \<noteq> None"
        by simp
      then have "footnote_matches True (z @ [LPAR]) \<noteq> []"
        unfolding footnote_matches_True_iff by blast
      with z show False by simp
    qed
  next
    assume a: "z @ u = p \<and> LPAR # ds @ [RPAR] = u @ s"
    show False
    proof (cases u)
      case Nil
      with a ps(3) match_footnote_bare_marker [OF ds] show False by simp
    next
      case (Cons c u')
      with a have e: "ds @ [RPAR] = u' @ s"
        by simp
      show False
      proof (cases s)
        case Nil
        with ps(3) show False by (simp add: match_footnote_Nil)
      next
        case s: (Cons d s')
        have "d \<in> set (ds @ [RPAR])"
          unfolding e s by simp
        then have "\<not> is_space d \<and> d \<noteq> LPAR"
          using ds digit_not_space lpar_not_digit rpar_not_space by auto
        then have "match_footnote s = None"
          unfolding s by (intro match_footnote_plain) simp_all
        with ps(3) show False by simp
      qed
    qed
  qed
qed

text \<open>Two footnote lines in a row.\<close>

definition two_footnotes :: ustring where
  "two_footnotes = ustr ''(1) a'' @ [LF] @ ustr ''(2) b''"

lemma strip_two_footnotes:
  "remove_footnote_content_from_main two_footnotes (extract_footnotes two_footnotes) =
     ustr ''(1) '' @ [LF] @ ustr ''(2)''"
  by (simp add: two_footnotes_def word_defs char_defs)

text \<open>A text without any marker at a line start.\<close>

definition plain_sentence :: ustring where
  "plain_sentence = ustr ''Plain text.''"

text \<open>
  C9, as stated, fails: stripping deletes the two bodies and leaves the two markers, and
  the first marker followed by the second one is a footnote line again.
\<close>

theorem reextraction_finds_footnote:
  "extract_footnotes two_footnotes = [(ustr ''1'', ustr ''a''), (ustr ''2'', ustr ''b'')] \<and>
   remove_footnote_content_from_main two_footnotes (extract_footnotes two_footnotes) =
     ustr ''(1) '' @ [LF] @ ustr ''(2)'' \<and>
   extract_footnotes
     (remove_footnote_content_from_main two_footnotes (extract_footnotes two_footnotes)) =
     [(ustr ''1'', ustr ''(2)'')]"
  unfolding strip_two_footnotes
  by (simp add: two_footnotes_def word_defs char_defs)

lemma reextract_none:
  assumes "extract_footnotes text = []"
  shows "extract_footnotes (remove_footnote_content_from_main text (extract_footnotes text)) = []"
proof -
  let ?main = "strip (sub_run (\<lambda>c. c = SP) 1 [SP] (sub_run (\<lambda>c. c = LF) 3 [LF, LF] text))"
  have m: "remove_footnote_content_from_main text (extract_footnotes text) = ?main"
    by (simp add: assms remove_footnote_content_from_main_def)
  have "footnote_matches True ?main = []"
  proof (rule ccontr)
    assume "footnote_matches True ?main \<noteq> []"
    then have "footnote_matches True
        (sub_run (\<lambda>c. c = SP) 1 [SP] (sub_run (\<lambda>c. c = LF) 3 [LF, LF] text)) \<noteq> []"
      by (rule footnote_matches_strip)
    then have "footnote_matches True text \<noteq> []"
      by (rule footnote_matches_collapse)
    with assms show False
      by (simp add: extract_footnotes_empty_iff)
  qed
  then show ?thesis
    unfolding m extract_footnotes_empty_iff .
qed

lemma reextract_single:
  assumes split: "text = pre @ [LPAR] @ ds @ [RPAR] @ ws @ body @ post"
    and line: "pre = [] \<or> last pre = LF"
    and ds: "ds \<noteq> []" "\<forall>x \<in> set ds. is_digit x"
    and ws: "\<forall>x \<in> set ws. is_space x"
    and body: "body \<noteq> []" "LF \<notin> set body" "\<not> is_space (hd body)" "\<not> is_space (last body)"
      "hd body \<notin> set ([LPAR] @ ds @ [RPAR])"
    and post: "\<forall>x \<in> set post. is_space x"
    and before: "\<not> has_footnote_line (pre @ [LPAR])"
      "\<not> has_footnote_line (remove_all body pre @ [LPAR])"
  shows "extract_footnotes text = [(ds, body)]"
    and "extract_footnotes (remove_footnote_content_from_main text (extract_footnotes text)) = []"
proof -
  let ?c = "\<lambda>s. sub_run (\<lambda>c. c = SP) 1 [SP] (sub_run (\<lambda>c. c = LF) 3 [LF, LF] s)"
  have t: "text = pre @ LPAR # ds @ RPAR # ws @ body @ post"
    by (simp add: split)
  have eol: "\<forall>x \<in> set (takeWhile (\<lambda>c. c \<noteq> LF) post). is_space x"
    using post by (auto dest: set_takeWhileD)
  have "\<forall>x \<in> set (dropWhile (\<lambda>c. c \<noteq> LF) post). is_space x"
    using post by (auto dest: set_dropWhileD)
  then have after: "footnote_matches False (dropWhile (\<lambda>c. c \<noteq> LF) post) = []"
    by (rule footnote_matches_blank)
  show e: "extract_footnotes text = [(ds, body)]"
    unfolding t using line ds ws body(1,3,4,2) eol before(1) after by (rule extract_single)
  have h: "hd body \<notin> set (LPAR # ds @ RPAR # ws)" "hd body \<notin> set post"
    using body(3,5) ws post by auto
  have "remove_all body ((LPAR # ds @ RPAR # ws) @ body @ post) =
        (LPAR # ds @ RPAR # ws) @ remove_all body (body @ post)"
    using body(1) h(1) by (rule remove_all_skip)
  also have "remove_all body (body @ post) = remove_all body post"
    using body(1) by (rule remove_all_occurrence)
  also have "remove_all body post = post"
    using remove_all_skip [OF body(1) h(2), of "[]"] by simp
  finally have "remove_all body (LPAR # ds @ RPAR # ws @ body @ post) =
                LPAR # ds @ RPAR # ws @ post"
    by simp
  then have r: "remove_all body text = remove_all body pre @ LPAR # ds @ RPAR # ws @ post"
    unfolding t using remove_all_line [OF line body(2)] by simp
  have blank: "\<forall>x \<in> set (rev (?c (ws @ post))). is_space x"
    using sub_run_subset [of "[SP]" SP 1 "sub_run (\<lambda>c. c = LF) 3 [LF, LF] (ws @ post)"]
      sub_run_subset [of "[LF, LF]" LF 3 "ws @ post"] ws post
    by (simp add: subset_iff) blast
  have "dropWhile is_space (rev (?c (ws @ post)) @ []) = dropWhile is_space []"
    using blank by (rule dropWhile_all)
  then have trail: "rev (dropWhile is_space (rev (?c (ws @ post)))) = []"
    by simp
  have "remove_footnote_content_from_main text (extract_footnotes text) =
        strip (?c (remove_all body pre @ LPAR # ds @ RPAR # (ws @ post)))"
    by (simp add: e remove_footnote_content_from_main_def r)
  also have "\<dots> = dropWhile is_space (?c (remove_all body pre)) @ LPAR # ds @ RPAR #
                   rev (dropWhile is_space (rev (?c (ws @ post))))"
    using ds(2) by (rule main_text_single)
  finally have m: "remove_footnote_content_from_main text (extract_footnotes text) =
           dropWhile is_space (?c (remove_all body pre)) @ LPAR # ds @ [RPAR]"
    unfolding trail .
  have z: "footnote_matches True (dropWhile is_space (?c (remove_all body pre)) @ [LPAR]) = []"
  proof (rule ccontr)
    assume a: "footnote_matches True
                 (dropWhile is_space (?c (remove_all body pre)) @ [LPAR]) \<noteq> []"
    have "dropWhile is_space (?c (remove_all body pre) @ LPAR # []) =
          dropWhile is_space (?c (remove_all body pre)) @ LPAR # []"
      using lpar_not_space by (rule dropWhile_stop)
    with a have "footnote_matches True (?c (remove_all body pre) @ [LPAR]) \<noteq> []"
      using footnote_matches_lstrip [of "?c (remove_all body pre) @ [LPAR]"] by simp
    moreover have "?c (remove_all body pre @ LPAR # []) = ?c (remove_all body pre) @ [LPAR]"
      by (simp add: sub_run_split)
    ultimately have "footnote_matches True (?c (remove_all body pre @ [LPAR])) \<noteq> []"
      by simp
    then have "footnote_matches True (remove_all body pre @ [LPAR]) \<noteq> []"
      by (rule footnote_matches_collapse)
    with before(2) show False
      by (simp add: no_line_iff)
  qed
  have "footnote_matches True
          (dropWhile is_space (?c (remove_all body pre)) @ LPAR # ds @ [RPAR]) = []"
    using ds(2) z by (rule no_line_in_marker)
  then show "extract_footnotes
      (remove_footnote_content_from_main text (extract_footnotes text)) = []"
    unfolding m extract_footnotes_empty_iff .
qed

text \<open>
  C9, amended. Extraction after stripping yields the empty map for every text in which
  extraction finds no footnote, and for every text with a single footnote line that is
  its last line with content: the line begins at a line start with an opening
  parenthesis, digits and a closing parenthesis, followed by whitespace and a body; the
  body is trimmed, has no newline and does not begin with a character of the marker;
  only whitespace follows the body; and no match of the footnote pattern begins before
  the line, neither in the text as it is nor once the occurrences of the body have been
  deleted there. For such a text extraction yields the one footnote, and the stripped
  text ends with the marker of the line, after which nothing is left for a body.
\<close>

theorem reextraction_empty:
  "(extract_footnotes text = [] \<longrightarrow>
      extract_footnotes
        (remove_footnote_content_from_main text (extract_footnotes text)) = []) \<and>
   (text = pre @ [LPAR] @ ds @ [RPAR] @ ws @ body @ post \<and>
    (pre = [] \<or> last pre = LF) \<and>
    ds \<noteq> [] \<and> (\<forall>x \<in> set ds. is_digit x) \<and>
    (\<forall>x \<in> set ws. is_space x) \<and>
    body \<noteq> [] \<and> LF \<notin> set body \<and> \<not> is_space (hd body) \<and> \<not> is_space (last body) \<and>
    hd body \<notin> set ([LPAR] @ ds @ [RPAR]) \<and>
    (\<forall>x \<in> set post. is_space x) \<and>
    \<not> has_footnote_line (pre @ [LPAR]) \<and>
    \<not> has_footnote_line (remove_all body pre @ [LPAR]) \<longrightarrow>
      extract_footnotes text = [(ds, body)] \<and>
      extract_footnotes
        (remove_footnote_content_from_main text (extract_footnotes text)) = [])"
  using reextract_none [of "text"] reextract_single [of "text" pre ds ws body post] by blast

theorem reextraction_empty_witness:
  "extract_footnotes plain_sentence = [] \<and>
   extract_footnotes
     (remove_footnote_content_from_main plain_sentence (extract_footnotes plain_sentence)) = [] \<and>
   round_trip_text =
     (ustr ''See (1) here.'' @ [LF]) @ [LPAR] @ ustr ''1'' @ [RPAR] @ [SP] @
     ustr ''Note body text'' @ [] \<and>
   last (ustr ''See (1) here.'' @ [LF]) = LF \<and>
   list_all is_digit (ustr ''1'') \<and>
   is_space SP \<and>
   LF \<notin> set (ustr ''Note body text'') \<and>
   \<not> is_space (hd (ustr ''Note body text'')) \<and>
   \<not> is_space (last (ustr ''Note body text'')) \<and>
   hd (ustr ''Note body text'') \<notin> set ([LPAR] @ ustr ''1'' @ [RPAR]) \<and>
   \<not> has_footnote_line ((ustr ''See (1) here.'' @ [LF]) @ [LPAR]) \<and>
   \<not> has_footnote_line
        (remove_all (ustr ''Note body text'') (ustr ''See (1) here.'' @ [LF]) @ [LPAR]) \<and>
   extract_footnotes round_trip_text = [(ustr ''1'', ustr ''Note body text'')] \<and>
   extract_footnotes
     (remove_footnote_content_from_main round_trip_text (extract_footnotes round_trip_text)) = []"
proof -
  have p: "extract_footnotes plain_sentence = []"
    by (simp add: plain_sentence_def word_defs char_defs)
  have t: "round_trip_text =
     (ustr ''See (1) here.'' @ [LF]) @ [LPAR] @ ustr ''1'' @ [RPAR] @ [SP] @
     ustr ''Note body text'' @ []"
    by (simp add: round_trip_text_def ustr_def)
  have c: "last (ustr ''See (1) here.'' @ [LF]) = LF"
    "list_all is_digit (ustr ''1'')"
    "is_space SP"
    "LF \<notin> set (ustr ''Note body text'')"
    "\<not> is_space (hd (ustr ''Note body text''))"
    "\<not> is_space (last (ustr ''Note body text''))"
    "hd (ustr ''Note body text'') \<notin> set ([LPAR] @ ustr ''1'' @ [RPAR])"
    by (simp_all add: char_defs)
  have r: "remove_all (ustr ''Note body text'') (ustr ''See (1) here.'' @ [LF]) =
           ustr ''See (1) here.'' @ [LF]"
    by (simp add: ustr_def)
  have b: "\<not> has_footnote_line ((ustr ''See (1) here.'' @ [LF]) @ [LPAR])"
    unfolding extract_footnotes_characterised [symmetric]
    by (simp add: word_defs char_defs)
  have h: "round_trip_text =
     (ustr ''See (1) here.'' @ [LF]) @ [LPAR] @ ustr ''1'' @ [RPAR] @ [SP] @
     ustr ''Note body text'' @ [] \<and>
    (ustr ''See (1) here.'' @ [LF] = [] \<or> last (ustr ''See (1) here.'' @ [LF]) = LF) \<and>
    ustr ''1'' \<noteq> [] \<and> (\<forall>x \<in> set (ustr ''1''). is_digit x) \<and>
    (\<forall>x \<in> set [SP]. is_space x) \<and>
    ustr ''Note body text'' \<noteq> [] \<and> LF \<notin> set (ustr ''Note body text'') \<and>
    \<not> is_space (hd (ustr ''Note body text'')) \<and>
    \<not> is_space (last (ustr ''Note body text'')) \<and>
    hd (ustr ''Note body text'') \<notin> set ([LPAR] @ ustr ''1'' @ [RPAR]) \<and>
    (\<forall>x \<in> set []. is_space x) \<and>
    \<not> has_footnote_line ((ustr ''See (1) here.'' @ [LF]) @ [LPAR]) \<and>
    \<not> has_footnote_line
         (remove_all (ustr ''Note body text'') (ustr ''See (1) here.'' @ [LF]) @ [LPAR])"
    using t c b unfolding r by (simp add: ustr_def list_all_iff)
  show ?thesis
    using p t c b h
      reextraction_empty [of plain_sentence, THEN conjunct1, THEN mp, OF p]
      reextraction_empty [THEN conjunct2, THEN mp, OF h]
    unfolding r by blast
qed

end
